theory Spec2Isabelle
  imports Main "HOL-Library.Sublist"
begin

section \<open>JavaScript strings\<close>

text \<open>
  A JavaScript string is modelled as a \<^typ>\<open>string\<close>, one \<^typ>\<open>char\<close> per byte of its
  UTF-8 form. Everything \<open>server.js\<close> and the path module look at is ASCII
  (the slash, the backslash, the dot and the letters of \<open>.json\<close>), and no character outside ASCII
  lowercases to one of these, so \<open>toLowerCase\<close> is the ASCII one.
\<close>

abbreviation slash :: char where
  "slash \<equiv> CHR ''/''"

abbreviation backslash :: char where
  "backslash \<equiv> CHR 0x5C"

abbreviation dot :: char where
  "dot \<equiv> CHR ''.''"

definition toLowerCase_char :: "char \<Rightarrow> char" where
  "toLowerCase_char c =
     (let n = (of_char c :: nat) in if 65 \<le> n \<and> n \<le> 90 then char_of (n + 32) else c)"

definition toLowerCase :: "string \<Rightarrow> string" where
  "toLowerCase s = map toLowerCase_char s"

definition startsWith :: "string \<Rightarrow> string \<Rightarrow> bool" where
  "startsWith s t \<longleftrightarrow> prefix t s"

definition endsWith :: "string \<Rightarrow> string \<Rightarrow> bool" where
  "endsWith s t \<longleftrightarrow> suffix t s"

definition includes_str :: "string \<Rightarrow> string \<Rightarrow> bool" where
  "includes_str s t \<longleftrightarrow> sublist t s"

text \<open>\<open>s.lastIndexOf(c)\<close> for a one-character needle: \<open>-1\<close> when it does not occur.\<close>

definition lastIndexOf :: "string \<Rightarrow> char \<Rightarrow> int" where
  "lastIndexOf s c =
     (if c \<in> set s then int (length s) - 1 - int (length (takeWhile (\<lambda>x. x \<noteq> c) (rev s)))
      else - 1)"

text \<open>\<open>s.slice(a, b)\<close>: a negative index counts from the end, both are clamped.\<close>

definition slice :: "string \<Rightarrow> int \<Rightarrow> int \<Rightarrow> string" where
  "slice s a b =
     (let len = int (length s);
          from = (if a < 0 then max (len + a) 0 else min a len);
          to = (if b < 0 then max (len + b) 0 else min b len)
      in take (nat (to - from)) (drop (nat from) s))"

section \<open>The path module (POSIX)\<close>

text \<open>
  \<open>server.js\<close> calls \<open>path.normalize\<close>, \<open>path.join\<close>, \<open>path.resolve\<close> and
  \<open>path.dirname\<close>. They are Node's, in their POSIX variant; the definitions below follow
  \<open>lib/path.js\<close> statement by statement, with the local variables of \<open>normalizeString\<close>
  as a record.
\<close>

definition isPosixPathSeparator :: "char \<Rightarrow> bool" where
  "isPosixPathSeparator c \<longleftrightarrow> c = slash"

record ns_state =
  res :: string
  lastSegmentLength :: int
  lastSlash :: int
  dots :: int
  code :: char

text \<open>
  The test that guards the removal of the last segment of \<open>res\<close>: true unless \<open>res\<close>
  ends with a segment that is exactly \<open>..\<close>.
\<close>

definition ns_not_dotdot :: "ns_state \<Rightarrow> bool" where
  "ns_not_dotdot st =
     (if length (res st) < 2 then True
      else if lastSegmentLength st \<noteq> 2 then True
      else if res st ! (length (res st) - 1) \<noteq> dot then True
      else res st ! (length (res st) - 2) \<noteq> dot)"

text \<open>
  One turn of the loop of \<open>normalizeString\<close>, at index \<open>i\<close>, once \<open>code\<close> has been
  read. Both the \<open>continue\<close> exits and the normal one set \<open>lastSlash = i\<close> and
  \<open>dots = 0\<close>.
\<close>

definition ns_body :: "string \<Rightarrow> bool \<Rightarrow> nat \<Rightarrow> char \<Rightarrow> ns_state \<Rightarrow> ns_state" where
  "ns_body path allowAboveRoot i c st0 =
     (let st = st0\<lparr>code := c\<rparr> in
      if isPosixPathSeparator c then
        (if lastSlash st = int i - 1 \<or> dots st = 1 then
           st\<lparr>lastSlash := int i, dots := 0\<rparr>
         else if dots st = 2 then
           (if ns_not_dotdot st \<and> length (res st) > 2 then
              (let lastSlashIndex = lastIndexOf (res st) slash in
               if lastSlashIndex = - 1 then
                 st\<lparr>res := [], lastSegmentLength := 0, lastSlash := int i, dots := 0\<rparr>
               else
                 (let r = slice (res st) 0 lastSlashIndex in
                  st\<lparr>res := r,
                     lastSegmentLength := int (length r) - 1 - lastIndexOf r slash,
                     lastSlash := int i, dots := 0\<rparr>))
            else if ns_not_dotdot st \<and> length (res st) \<noteq> 0 then
              st\<lparr>res := [], lastSegmentLength := 0, lastSlash := int i, dots := 0\<rparr>
            else if allowAboveRoot then
              st\<lparr>res := (if length (res st) > 0 then res st @ ''/..'' else ''..''),
                 lastSegmentLength := 2, lastSlash := int i, dots := 0\<rparr>
            else
              st\<lparr>lastSlash := int i, dots := 0\<rparr>)
         else
           st\<lparr>res := (if length (res st) > 0
                       then res st @ [slash] @ slice path (lastSlash st + 1) (int i)
                       else slice path (lastSlash st + 1) (int i)),
              lastSegmentLength := int i - lastSlash st - 1,
              lastSlash := int i, dots := 0\<rparr>)
      else if c = dot \<and> dots st \<noteq> - 1 then
        st\<lparr>dots := dots st + 1\<rparr>
      else
        st\<lparr>dots := - 1\<rparr>)"

text \<open>
  \<open>for (let i = 0; i <= path.length; ++i)\<close>: inside the string \<open>code\<close> is the
  character at \<open>i\<close>; one past the end the loop stops if the last \<open>code\<close> was a separator
  and otherwise runs the body once more with a separator.
\<close>

function ns_loop :: "string \<Rightarrow> bool \<Rightarrow> nat \<Rightarrow> ns_state \<Rightarrow> string" where
  "ns_loop path allowAboveRoot i st =
     (if i \<le> length path then
        (if i < length path then
           ns_loop path allowAboveRoot (Suc i) (ns_body path allowAboveRoot i (path ! i) st)
         else if isPosixPathSeparator (code st) then res st
         else ns_loop path allowAboveRoot (Suc i) (ns_body path allowAboveRoot i slash st))
      else res st)"
  by pat_completeness auto
termination
  by (relation "measure (\<lambda>(path, a, i, st). Suc (length path) - i)") auto

declare ns_loop.simps [simp del]

definition normalizeString :: "string \<Rightarrow> bool \<Rightarrow> string" where
  "normalizeString path allowAboveRoot =
     ns_loop path allowAboveRoot 0
       \<lparr>res = [], lastSegmentLength = 0, lastSlash = - 1, dots = 0, code = CHR 0x00\<rparr>"

definition path_normalize :: "string \<Rightarrow> string" where
  "path_normalize path =
     (if length path = 0 then ''.''
      else
        (let isAbsolute = (path ! 0 = slash);
             trailingSeparator = (path ! (length path - 1) = slash);
             p = normalizeString path (\<not> isAbsolute)
         in if length p = 0 then
              (if isAbsolute then ''/'' else if trailingSeparator then ''./'' else ''.'')
            else
              (let p' = (if trailingSeparator then p @ ''/'' else p)
               in if isAbsolute then slash # p' else p')))"

text \<open>\<open>path.join\<close>: the non-empty arguments joined with \<open>/\<close>, then normalized.\<close>

fun join_args :: "string option \<Rightarrow> string list \<Rightarrow> string option" where
  "join_args joined [] = joined"
| "join_args joined (arg # args) =
     (if length arg > 0 then
        (case joined of
           None \<Rightarrow> join_args (Some arg) args
         | Some j \<Rightarrow> join_args (Some (j @ [slash] @ arg)) args)
      else join_args joined args)"

definition path_join :: "string list \<Rightarrow> string" where
  "path_join args =
     (if length args = 0 then ''.''
      else (case join_args None args of None \<Rightarrow> ''.'' | Some joined \<Rightarrow> path_normalize joined))"

text \<open>
  \<open>path.resolve\<close>: the arguments are taken from the right, then the working directory,
  until an absolute one has been prepended. \<open>resolve_loop\<close> gets them in that order.
\<close>

fun resolve_loop :: "string list \<Rightarrow> string \<Rightarrow> bool \<Rightarrow> string \<times> bool" where
  "resolve_loop [] resolvedPath resolvedAbsolute = (resolvedPath, resolvedAbsolute)"
| "resolve_loop (p # ps) resolvedPath resolvedAbsolute =
     (if resolvedAbsolute then (resolvedPath, resolvedAbsolute)
      else if length p = 0 then resolve_loop ps resolvedPath resolvedAbsolute
      else resolve_loop ps (p @ [slash] @ resolvedPath) (p ! 0 = slash))"

definition path_resolve :: "string \<Rightarrow> string list \<Rightarrow> string" where
  "path_resolve cwd args =
     (case resolve_loop (rev args @ [cwd]) [] False of
        (resolvedPath, resolvedAbsolute) \<Rightarrow>
          (let p = normalizeString resolvedPath (\<not> resolvedAbsolute)
           in if resolvedAbsolute then slash # p
              else if length p > 0 then p else ''.''))"

text \<open>
  \<open>path.dirname\<close>: the scan runs from the last character down to index 1 and stops at
  the first slash that follows a character that is not one; it returns that index, or
  \<open>-1\<close>.
\<close>

function dirname_loop :: "string \<Rightarrow> nat \<Rightarrow> bool \<Rightarrow> int" where
  "dirname_loop path i matchedSlash =
     (if 1 \<le> i then
        (if path ! i = slash then
           (if \<not> matchedSlash then int i else dirname_loop path (i - 1) matchedSlash)
         else dirname_loop path (i - 1) False)
      else - 1)"
  by pat_completeness auto
termination
  by (relation "measure (\<lambda>(path, i, m). i)") auto

declare dirname_loop.simps [simp del]

definition path_dirname :: "string \<Rightarrow> string" where
  "path_dirname path =
     (if length path = 0 then ''.''
      else
        (let hasRoot = (path ! 0 = slash);
             end = dirname_loop path (length path - 1) True
         in if end = - 1 then (if hasRoot then ''/'' else ''.'')
            else if hasRoot \<and> end = 1 then ''//''
            else slice path 0 end))"

text \<open>
  \<open>const DATA_ROOT = path.resolve(process.env.DATA_ROOT || __dirname)\<close>: the
  environment variable when it is set and not empty, the directory of the script
  otherwise, made absolute against the working directory.
\<close>

definition DATA_ROOT :: "string \<Rightarrow> string option \<Rightarrow> string \<Rightarrow> string" where
  "DATA_ROOT cwd env_DATA_ROOT dirname =
     path_resolve cwd
       [case env_DATA_ROOT of None \<Rightarrow> dirname | Some e \<Rightarrow> if e = [] then dirname else e]"

section \<open>sanitize\<close>

text \<open>
  The first \<open>replace\<close> of \<open>sanitize\<close>, anchored at the front: the longest run of \<open>..\<close>
  followed by a slash, by a backslash or by the end of the string.
\<close>

fun strip_parents :: "string \<Rightarrow> string" where
  "strip_parents (a # b # c # r) =
     (if a = dot \<and> b = dot \<and> (c = slash \<or> c = backslash) then strip_parents r
      else a # b # c # r)"
| "strip_parents [a, b] = (if a = dot \<and> b = dot then [] else [a, b])"
| "strip_parents s = s"

text \<open>The second \<open>replace\<close>: every leading slash and backslash goes.\<close>

definition strip_separators :: "string \<Rightarrow> string" where
  "strip_separators s = dropWhile (\<lambda>c. c = slash \<or> c = backslash) s"

text \<open>The constant \<open>cleaned\<close> of \<open>sanitize\<close>.\<close>

definition cleaned_of :: "string \<Rightarrow> string" where
  "cleaned_of pth = strip_parents (path_normalize pth)"

definition sanitize :: "string \<Rightarrow> string option" where
  "sanitize pth =
     (let cleaned = cleaned_of pth in
      if includes_str cleaned ''..'' then None
      else if \<not> endsWith (toLowerCase cleaned) ''.json'' then None
      else Some (strip_separators cleaned))"

section \<open>The file system\<close>

text \<open>
  The calls into \<open>fs\<close> act on a tree of files and directories, here a map from the
  absolute, normalized path of an entry to the entry. The root directory always exists.
  \<open>existsSync\<close> is true of a directory as well as of a file; \<open>readFile\<close> of a directory
  fails (\<open>EISDIR\<close>), and so does \<open>writeFile\<close>; \<open>mkdir\<close> with \<open>recursive\<close> creates the
  directories that are missing on the way down and fails on a file. Failures of the
  device or of permissions are not part of the model.
\<close>

datatype node = File string | Dir

datatype fs_error = ENOENT | EISDIR | ENOTDIR | EEXIST

type_synonym filesystem = "string \<Rightarrow> node option"

definition node_at :: "filesystem \<Rightarrow> string \<Rightarrow> node option" where
  "node_at fs p = (if p = ''/'' then Some Dir else fs p)"

definition existsSync :: "filesystem \<Rightarrow> string \<Rightarrow> bool" where
  "existsSync fs p \<longleftrightarrow> node_at fs p \<noteq> None"

definition readFile :: "filesystem \<Rightarrow> string \<Rightarrow> fs_error + string" where
  "readFile fs p =
     (case node_at fs p of
        None \<Rightarrow> Inl ENOENT
      | Some Dir \<Rightarrow> Inl EISDIR
      | Some (File txt) \<Rightarrow> Inr txt)"

definition writeFile :: "filesystem \<Rightarrow> string \<Rightarrow> string \<Rightarrow> fs_error + filesystem" where
  "writeFile fs p txt =
     (case node_at fs p of
        Some Dir \<Rightarrow> Inl EISDIR
      | _ \<Rightarrow>
          (case node_at fs (path_dirname p) of
             None \<Rightarrow> Inl ENOENT
           | Some (File _) \<Rightarrow> Inl ENOTDIR
           | Some Dir \<Rightarrow> Inr (fs(p \<mapsto> File txt))))"

text \<open>The pieces of a string between the characters that \<open>sep\<close> accepts.\<close>

fun split_where :: "(char \<Rightarrow> bool) \<Rightarrow> string \<Rightarrow> string list" where
  "split_where sep [] = [[]]"
| "split_where sep (c # cs) =
     (if sep c then [] # split_where sep cs
      else (case split_where sep cs of
              [] \<Rightarrow> [[c]]
            | s # ss \<Rightarrow> (c # s) # ss))"

fun mkdir_walk :: "filesystem \<Rightarrow> string \<Rightarrow> string list \<Rightarrow> fs_error + filesystem" where
  "mkdir_walk fs cur [] = Inr fs"
| "mkdir_walk fs cur (s # ss) =
     (let p = cur @ [slash] @ s in
      case node_at fs p of
        None \<Rightarrow> mkdir_walk (fs(p \<mapsto> Dir)) p ss
      | Some Dir \<Rightarrow> mkdir_walk fs p ss
      | Some (File _) \<Rightarrow> Inl (if ss = [] then EEXIST else ENOTDIR))"

definition mkdir_recursive :: "filesystem \<Rightarrow> string \<Rightarrow> fs_error + filesystem" where
  "mkdir_recursive fs dir =
     mkdir_walk fs [] (filter (\<lambda>s. s \<noteq> []) (split_where isPosixPathSeparator dir))"

section \<open>The handlers\<close>

text \<open>
  \<open>JSON.parse\<close> and \<open>JSON.stringify\<close> belong to the language, not to the repository;
  the handlers take them as a parameter, over any type of JSON values. \<open>JSON_parse\<close> is
  \<open>None\<close> where \<open>JSON.parse\<close> throws; the flag of \<open>JSON_stringify\<close> is \<open>pretty\<close>, that
  is, \<open>JSON.stringify(v, null, 2)\<close> against \<open>JSON.stringify(v)\<close>; \<open>empty_object\<close> is
  the literal \<open>{}\<close>.
\<close>

record 'j json_api =
  JSON_parse :: "string \<Rightarrow> 'j option"
  JSON_stringify :: "bool \<Rightarrow> 'j \<Rightarrow> string"
  empty_object :: 'j

text \<open>
  What a request is answered with: status 400 \<open>invalid path\<close>, 404 \<open>not found\<close>,
  500 \<open>read failed\<close>, 400 \<open>missing JSON body\<close>, 500 \<open>write failed\<close>, 403
  \<open>forbidden\<close>, the 400 and the 413 of the body parser, the rendered document of a
  \<open>GET\<close>, and the path and byte count of a \<open>PUT\<close>.
\<close>

datatype response =
  InvalidPath | NotFound | ReadError | MissingBody | WriteError | Forbidden
  | BadRequest | PayloadTooLarge
  | Content string | Written string nat

definition ensureDir :: "filesystem \<Rightarrow> string \<Rightarrow> fs_error + filesystem" where
  "ensureDir fs filePath = mkdir_recursive fs (path_dirname filePath)"

text \<open>
  \<open>app.get("/*")\<close>. \<open>!cleaned\<close> is true of \<open>null\<close> and of the empty string. Every
  exception inside the \<open>try\<close> is answered with \<open>read failed\<close>. The file system is
  returned with the response.
\<close>

definition get_handler ::
  "'j json_api \<Rightarrow> string \<Rightarrow> filesystem \<Rightarrow> string \<Rightarrow> bool \<Rightarrow> response \<times> filesystem" where
  "get_handler api root fs req_path pretty =
     (case sanitize req_path of
        None \<Rightarrow> (InvalidPath, fs)
      | Some cleaned \<Rightarrow>
          if cleaned = [] then (InvalidPath, fs)
          else
            (let filePath = path_join [root, cleaned] in
             if \<not> existsSync fs filePath then (NotFound, fs)
             else
               (case readFile fs filePath of
                  Inl e \<Rightarrow> (ReadError, fs)
                | Inr txt \<Rightarrow>
                    (case (if txt \<noteq> [] then JSON_parse api txt else Some (empty_object api)) of
                       None \<Rightarrow> (ReadError, fs)
                     | Some data \<Rightarrow> (Content (JSON_stringify api pretty data), fs)))))"

text \<open>
  \<open>app.put("/*")\<close> after \<open>requireKey\<close>. The body is \<open>None\<close> when \<open>req.body\<close> is
  undefined. A failure of \<open>ensureDir\<close> or of \<open>writeFile\<close> is answered with
  \<open>write failed\<close>; the directories made before a failed \<open>writeFile\<close> stay.
\<close>

definition put_handler ::
  "'j json_api \<Rightarrow> string \<Rightarrow> filesystem \<Rightarrow> string \<Rightarrow> 'j option \<Rightarrow> bool
     \<Rightarrow> response \<times> filesystem" where
  "put_handler api root fs req_path body pretty =
     (case sanitize req_path of
        None \<Rightarrow> (InvalidPath, fs)
      | Some cleaned \<Rightarrow>
          if cleaned = [] then (InvalidPath, fs)
          else
            (case body of
               None \<Rightarrow> (MissingBody, fs)
             | Some doc \<Rightarrow>
                 (let filePath = path_join [root, cleaned] in
                  case ensureDir fs filePath of
                    Inl e \<Rightarrow> (WriteError, fs)
                  | Inr fs1 \<Rightarrow>
                      (let text = JSON_stringify api pretty doc in
                       case writeFile fs1 filePath text of
                         Inl e \<Rightarrow> (WriteError, fs1)
                       | Inr fs2 \<Rightarrow> (Written cleaned (length text), fs2)))))"

text \<open>
  \<open>requireKey\<close>: open when no key is configured, otherwise the header
  \<open>x-storage-key\<close> has to be the key.
\<close>

definition requireKey :: "string \<Rightarrow> string option \<Rightarrow> bool" where
  "requireKey STORAGE_KEY header \<longleftrightarrow> STORAGE_KEY = [] \<or> header = Some STORAGE_KEY"

text \<open>
  \<open>app.use(express.json({ limit: "1mb" }))\<close> runs before every route. The routes are
  written \<open>"/*"\<close>, the syntax of Express 4, whose JSON body parser starts with
  \<open>req.body = req.body || {}\<close>: a request with no body, or with a body that is not
  declared as JSON, reaches the handler with the empty object. A declared body that is
  empty gives the empty object too; otherwise the first character after the white space
  has to open an object or an array (the strict mode) and the text has to parse, or the
  request is answered with 400; a body over the limit is answered with 413. The raw
  body is \<open>None\<close> when the parser does not read one.
\<close>

definition is_json_whitespace :: "char \<Rightarrow> bool" where
  "is_json_whitespace c \<longleftrightarrow> c = CHR 0x20 \<or> c = CHR 0x09 \<or> c = CHR 0x0A \<or> c = CHR 0x0D"

definition firstchar :: "string \<Rightarrow> char option" where
  "firstchar str = (case dropWhile is_json_whitespace str of [] \<Rightarrow> None | c # _ \<Rightarrow> Some c)"

definition express_json :: "'j json_api \<Rightarrow> string option \<Rightarrow> response + 'j option" where
  "express_json api raw_body =
     (case raw_body of
        None \<Rightarrow> Inr (Some (empty_object api))
      | Some txt \<Rightarrow>
          if length txt > 1048576 then Inl PayloadTooLarge
          else if length txt = 0 then Inr (Some (empty_object api))
          else if firstchar txt = Some (CHR ''{'') \<or> firstchar txt = Some (CHR ''['') then
            (case JSON_parse api txt of
               None \<Rightarrow> Inl BadRequest
             | Some v \<Rightarrow> Inr (Some v))
          else Inl BadRequest)"

text \<open>
  A \<open>PUT\<close> request as the application serves it: the body parser, \<open>requireKey\<close>, the
  handler.
\<close>

definition put_route ::
  "'j json_api \<Rightarrow> string \<Rightarrow> string \<Rightarrow> filesystem \<Rightarrow> string option \<Rightarrow> string
     \<Rightarrow> string option \<Rightarrow> bool \<Rightarrow> response \<times> filesystem" where
  "put_route api STORAGE_KEY root fs header req_path raw_body pretty =
     (case express_json api raw_body of
        Inl refused \<Rightarrow> (refused, fs)
      | Inr body \<Rightarrow>
          if requireKey STORAGE_KEY header then put_handler api root fs req_path body pretty
          else (Forbidden, fs))"

text \<open>
  A document is JSON-serializable when parsing its text gives it back, in the pretty
  and in the compact rendering.
\<close>

definition serializable :: "'j json_api \<Rightarrow> 'j \<Rightarrow> bool" where
  "serializable api doc \<longleftrightarrow>
     JSON_parse api (JSON_stringify api True doc) = Some doc \<and>
     JSON_parse api (JSON_stringify api False doc) = Some doc"

section \<open>Confinement\<close>

text \<open>
  A path is inside a directory when it is the directory or starts with the directory
  followed by a slash.
\<close>

definition inside :: "string \<Rightarrow> string \<Rightarrow> bool" where
  "inside root p \<longleftrightarrow>
     p = root \<or> startsWith p (if endsWith root ''/'' then root else root @ ''/'')"

text \<open>
  Two stores agree inside a directory when they hold the same entry at every path inside
  it.
\<close>

definition agree_inside :: "string \<Rightarrow> filesystem \<Rightarrow> filesystem \<Rightarrow> bool" where
  "agree_inside root fs fs' \<longleftrightarrow> (\<forall>q. inside root q \<longrightarrow> fs q = fs' q)"

text \<open>
  The paths \<open>mkdir_walk\<close> visits, and a directory that exists with all the directories
  above it: every path on the way down to it holds a directory.
\<close>

fun walk_paths :: "string \<Rightarrow> string list \<Rightarrow> string list" where
  "walk_paths cur [] = []"
| "walk_paths cur (s # ss) = (cur @ [slash] @ s) # walk_paths (cur @ [slash] @ s) ss"

definition directory_exists :: "filesystem \<Rightarrow> string \<Rightarrow> bool" where
  "directory_exists fs dir \<longleftrightarrow>
     list_all (\<lambda>q. node_at fs q = Some Dir)
       (walk_paths [] (filter (\<lambda>s. s \<noteq> []) (split_where isPosixPathSeparator dir)))"

section \<open>The segments of a path\<close>

text \<open>
  \<open>normalizeString\<close> seen from above: the path is cut at its slashes, and the pieces
  are pushed on a stack, with \<open>.\<close> and the empty piece dropped and \<open>..\<close> popping the
  last piece, or staying when there is nothing to pop and the path is relative. The loop
  is proved equal to this view below; the definitions here are for the proofs only.
\<close>

fun join_slash :: "string list \<Rightarrow> string" where
  "join_slash [] = []"
| "join_slash [s] = s"
| "join_slash (s # t # ss) = s @ slash # join_slash (t # ss)"

definition seg_step :: "bool \<Rightarrow> string list \<Rightarrow> string \<Rightarrow> string list" where
  "seg_step allow stack seg =
     (if seg = [] \<or> seg = ''.'' then stack
      else if seg = ''..'' then
        (if stack \<noteq> [] \<and> last stack \<noteq> ''..'' then butlast stack
         else if allow then stack @ [''..''] else stack)
      else stack @ [seg])"

fun seg_run :: "bool \<Rightarrow> string list \<Rightarrow> string \<Rightarrow> string \<Rightarrow> string list" where
  "seg_run allow stack cur [] = seg_step allow stack cur"
| "seg_run allow stack cur (c # cs) =
     (if c = slash then seg_run allow (seg_step allow stack cur) [] cs
      else seg_run allow stack (cur @ [c]) cs)"

definition good_stack :: "string list \<Rightarrow> bool" where
  "good_stack stack \<longleftrightarrow> (\<forall>s\<in>set stack. s \<noteq> [] \<and> slash \<notin> set s)"

definition dots_of :: "string \<Rightarrow> int" where
  "dots_of cur = (if \<forall>c\<in>set cur. c = dot then int (length cur) else - 1)"

definition ns_inv :: "string \<Rightarrow> nat \<Rightarrow> ns_state \<Rightarrow> string list \<Rightarrow> string \<Rightarrow> bool" where
  "ns_inv path i st stack cur \<longleftrightarrow>
     suffix cur (take i path) \<and>
     slash \<notin> set cur \<and> good_stack stack \<and>
     res st = join_slash stack \<and>
     lastSegmentLength st = (if stack = [] then 0 else int (length (last stack))) \<and>
     lastSlash st = int i - 1 - int (length cur) \<and>
     dots st = dots_of cur \<and>
     (code st = slash \<longrightarrow> cur = [])"

definition normal_stack :: "string list \<Rightarrow> bool" where
  "normal_stack stack \<longleftrightarrow>
     (\<forall>s\<in>set stack. s \<noteq> [] \<and> slash \<notin> set s \<and> s \<noteq> ''.'' \<and> s \<noteq> ''..'')"

section \<open>A small instance of the JSON interface\<close>

text \<open>
  The five JSON values that are written the same way pretty and compact, with their
  texts; \<open>atom_parse\<close> reads these five texts and nothing else. It instantiates the
  handlers where a theorem is applied to a concrete request.
\<close>

datatype atom = JNull | JTrue | JFalse | JEmptyObject | JEmptyArray

definition atom_stringify :: "bool \<Rightarrow> atom \<Rightarrow> string" where
  "atom_stringify pretty v =
     (case v of JNull \<Rightarrow> ''null'' | JTrue \<Rightarrow> ''true'' | JFalse \<Rightarrow> ''false''
      | JEmptyObject \<Rightarrow> ''{}'' | JEmptyArray \<Rightarrow> ''[]'')"

definition atom_parse :: "string \<Rightarrow> atom option" where
  "atom_parse s =
     (if s = ''null'' then Some JNull else if s = ''true'' then Some JTrue
      else if s = ''false'' then Some JFalse else if s = ''{}'' then Some JEmptyObject
      else if s = ''[]'' then Some JEmptyArray else None)"

definition atom_api :: "atom json_api" where
  "atom_api = \<lparr>JSON_parse = atom_parse, JSON_stringify = atom_stringify,
                empty_object = JEmptyObject\<rparr>"

text \<open>
  Two stores for concrete requests: a storage root \<open>/home/u/store\<close> with one document,
  and a file beside the root that differs between the two.
\<close>

definition example_store :: filesystem where
  "example_store =
     [''/home'' \<mapsto> Dir, ''/home/u'' \<mapsto> Dir, ''/home/u/store'' \<mapsto> Dir,
      ''/home/u/store/linked_decks.json'' \<mapsto> File ''[]'',
      ''/home/u/notes.json'' \<mapsto> File ''true'']"

definition example_store_other :: filesystem where
  "example_store_other = example_store(''/home/u/notes.json'' \<mapsto> File ''false'')"

section \<open>The loop of normalizeString computes the segment stack\<close>

lemma join_slash_snoc:
  "join_slash (xs @ [s]) = (if xs = [] then s else join_slash xs @ slash # s)"
  by (induction xs rule: join_slash.induct) auto

lemma join_slash_Nil_iff: "good_stack xs \<Longrightarrow> join_slash xs = [] \<longleftrightarrow> xs = []"
  by (induction xs rule: join_slash.induct) (auto simp: good_stack_def)

lemma lastIndexOf_absent: "c \<notin> set s \<Longrightarrow> lastIndexOf s c = - 1"
  by (simp add: lastIndexOf_def)

lemma lastIndexOf_last: "c \<notin> set s \<Longrightarrow> lastIndexOf (r @ c # s) c = int (length r)"
proof -
  assume a: "c \<notin> set s"
  have "takeWhile (\<lambda>x. x \<noteq> c) (rev s @ c # rev r) = rev s"
    using a by (simp add: takeWhile_append)  
  then show ?thesis by (simp add: lastIndexOf_def)
qed

lemma slice_prefix: "slice (r @ s) 0 (int (length r)) = r"
  by (simp add: slice_def Let_def)

lemma dots_of_simps:
  "dots_of [] = 0"
  "dots_of cur = 1 \<longleftrightarrow> cur = ''.''"
  "dots_of cur = 2 \<longleftrightarrow> cur = ''..''"
proof -
  show "dots_of [] = 0" by (simp add: dots_of_def)
  show "dots_of cur = 1 \<longleftrightarrow> cur = ''.''"
    by (cases cur) (auto simp: dots_of_def)
  show "dots_of cur = 2 \<longleftrightarrow> cur = ''..''"
  proof (cases cur)
    case Nil then show ?thesis by (simp add: dots_of_def)
  next
    case (Cons a as)
    then show ?thesis by (cases as) (auto simp: dots_of_def)
  qed
qed

lemma dots_of_snoc:
  "dots_of (cur @ [c]) = (if c = dot \<and> dots_of cur \<noteq> - 1 then dots_of cur + 1 else - 1)"
  by (auto simp: dots_of_def)

lemma good_stack_snoc: "good_stack (xs @ [s]) \<longleftrightarrow> good_stack xs \<and> s \<noteq> [] \<and> slash \<notin> set s"
  by (auto simp: good_stack_def)

lemma suffix_take_Suc:
  "suffix cur (take i path) \<Longrightarrow> i < length path \<Longrightarrow> suffix (cur @ [path ! i]) (take (Suc i) path)"
  by (simp add: take_Suc_conv_app_nth)

lemma slice_suffix:
  assumes "suffix cur (take i path)" and "i \<le> length path"
  shows "slice path (int i - 1 - int (length cur) + 1) (int i) = cur"
proof -
  from assms(1) obtain pre where pre: "take i path = pre @ cur"
    by (auto simp: suffix_def)
  have li: "length pre + length cur = i"
    using pre assms(2) by (metis length_append length_take min.absorb2)
  have "path = pre @ cur @ drop i path"
    using pre by (metis append_assoc append_take_drop_id)
  then have "take (length cur) (drop (length pre) path) = cur"
    by (metis append_eq_conv_conj)
  moreover have "nat (int i - int (length cur)) = length pre"
    using li by simp
  ultimately show ?thesis
    using li assms(2) by (simp add: slice_def Let_def)
qed

lemma ns_body_other:
  assumes inv: "ns_inv path i st stack cur" and i: "i < length path" and c: "path ! i \<noteq> slash"
  shows "ns_inv path (Suc i) (ns_body path allow i (path ! i) st) stack (cur @ [path ! i])"
proof -
  have suf: "suffix (cur @ [path ! i]) (take (Suc i) path)"
    using inv i by (simp add: ns_inv_def suffix_take_Suc del: suffix_snoc)
  have len: "length cur \<le> i"
    using inv i by (auto simp: ns_inv_def dest!: suffix_length_le)
  show ?thesis
    unfolding ns_inv_def
    using inv c len suf
    by (simp add: ns_inv_def ns_body_def isPosixPathSeparator_def Let_def dots_of_snoc 
        del: suffix_snoc)
qed

lemma join_slash_length_ge3:
  "good_stack (xs @ [s]) \<Longrightarrow> xs \<noteq> [] \<Longrightarrow> 3 \<le> length (join_slash (xs @ [s]))"
proof -
  assume g: "good_stack (xs @ [s])" and ne: "xs \<noteq> []"
  then have "join_slash xs \<noteq> []" "s \<noteq> []"
    using join_slash_Nil_iff[of xs] by (auto simp: good_stack_snoc)
  then have "1 \<le> length (join_slash xs)" "1 \<le> length s"
    by (simp_all add: Suc_le_eq)
  then show ?thesis using ne by (simp add: join_slash_snoc)
qed

lemma ns_not_dotdot_iff:
  assumes "good_stack stack" "res st = join_slash stack"
    "lastSegmentLength st = (if stack = [] then 0 else int (length (last stack)))"
  shows "ns_not_dotdot st \<longleftrightarrow> \<not> (stack \<noteq> [] \<and> last stack = ''..'')"
proof (cases stack rule: rev_cases)
  case Nil
  then show ?thesis using assms by (simp add: ns_not_dotdot_def)
next
  case (snoc xs s)
  show ?thesis
  proof (cases "length s = 2")
    case False
    then have "s \<noteq> ''..''" by auto
    then show ?thesis using assms snoc False by (simp add: ns_not_dotdot_def)
  next
    case True
    then obtain a b where s: "s = [a, b]"
      by (metis One_nat_def Suc_1 length_0_conv length_Suc_conv)
    have r: "res st = (if xs = [] then [a, b] else join_slash xs @ slash # [a, b])"
      using assms snoc s by (simp add: join_slash_snoc)
    show ?thesis
      using assms(3) snoc s r by (auto simp: ns_not_dotdot_def nth_append)
  qed
qed

lemma lastIndexOf_join_slash:
  "good_stack (xs @ [s]) \<Longrightarrow>
   lastIndexOf (join_slash (xs @ [s])) slash = (if xs = [] then - 1 else int (length (join_slash xs)))"
  by (simp add: join_slash_snoc good_stack_snoc lastIndexOf_absent lastIndexOf_last)

lemma last_segment_length:
  assumes "good_stack xs" "xs \<noteq> []"
  shows "int (length (join_slash xs)) - 1 - lastIndexOf (join_slash xs) slash = int (length (last xs))"
proof -
  obtain ys t where xs: "xs = ys @ [t]"
    using assms(2) by (meson rev_exhaust)
  show ?thesis
    using assms(1) lastIndexOf_join_slash[of ys t] unfolding xs
    by (simp add: join_slash_snoc)
qed

lemma ns_inv_after_sep:
  assumes "good_stack stack" "res st = join_slash stack"
    "lastSegmentLength st = (if stack = [] then 0 else int (length (last stack)))"
    "lastSlash st = int i" "dots st = 0"
  shows "ns_inv path (Suc i) st stack []"
  using assms by (simp add: ns_inv_def dots_of_simps)

lemma ns_body_sep:
  assumes inv: "ns_inv path i st stack cur" and i: "i \<le> length path"
  shows "ns_inv path (Suc i) (ns_body path allow i slash st) (seg_step allow stack cur) []"
proof -
  have suf: "suffix cur (take i path)" and nsl: "slash \<notin> set cur" and good: "good_stack stack"
    and res: "res st = join_slash stack"
    and lsl: "lastSegmentLength st = (if stack = [] then 0 else int (length (last stack)))"
    and ls: "lastSlash st = int i - 1 - int (length cur)"
    and dots: "dots st = dots_of cur"
    using inv by (simp_all add: ns_inv_def)
  have sl: "slice path (lastSlash st + 1) (int i) = cur"
    using slice_suffix[OF suf i] ls by simp
  consider (noop) "cur = [] \<or> cur = ''.''" | (up) "cur = ''..''"
    | (push) "cur \<noteq> []" "cur \<noteq> ''.''" "cur \<noteq> ''..''"
    by blast
  then show ?thesis
  proof cases
    case noop
    then have c: "lastSlash st = int i - 1 \<or> dots st = 1"
      using ls dots by (auto simp: dots_of_simps)
    have step: "seg_step allow stack cur = stack"
      using noop by (auto simp: seg_step_def)
    show ?thesis
      unfolding step using c good res lsl
      by (intro ns_inv_after_sep) (auto simp: ns_body_def isPosixPathSeparator_def Let_def)
  next
    case up
    have c1: "\<not> (lastSlash st = int i - 1 \<or> dots st = 1)" and c2: "dots st = 2"
      using ls dots up by (auto simp: dots_of_simps dots_of_def)
    have nd: "ns_not_dotdot (st\<lparr>code := slash\<rparr>) \<longleftrightarrow> \<not> (stack \<noteq> [] \<and> last stack = ''..'')"
      using good res lsl by (intro ns_not_dotdot_iff) simp_all
    show ?thesis
    proof (cases stack rule: rev_cases)
      case Nil
      then have step: "seg_step allow stack cur = (if allow then [''..''] else [])"
        using up by (simp add: seg_step_def)
      show ?thesis
        unfolding step using c1 c2 nd res lsl Nil
        by (intro ns_inv_after_sep)
           (auto simp: ns_body_def isPosixPathSeparator_def Let_def good_stack_def)
    next
      case (snoc xs s)
      show ?thesis
      proof (cases "s = ''..''")
        case True
        then have step: "seg_step allow stack cur = (if allow then stack @ [''..''] else stack)"
          using up snoc by (simp add: seg_step_def)
        have ne: "join_slash stack \<noteq> []"
          using good snoc join_slash_Nil_iff[of stack] by simp
        have nd': "\<not> ns_not_dotdot (st\<lparr>code := slash\<rparr>)"
          using nd snoc True by simp
        have sne: "stack \<noteq> []"
          using snoc by simp
        have g': "good_stack (stack @ [''..''])"
          using good by (simp add: good_stack_snoc)
        show ?thesis
          unfolding step using c1 c2 nd' res lsl ne good sne g'
          by (intro ns_inv_after_sep)
             (auto simp: ns_body_def isPosixPathSeparator_def Let_def join_slash_snoc)
      next
        case False
        then have step: "seg_step allow stack cur = xs"
          using up snoc by (simp add: seg_step_def)
        have nd': "ns_not_dotdot (st\<lparr>code := slash\<rparr>)"
          using nd snoc False by simp
        have gxs: "good_stack xs"
          using good snoc by (simp add: good_stack_snoc)
        have ne: "res st \<noteq> []"
          using good snoc res join_slash_Nil_iff[of stack] by simp
        show ?thesis
        proof (cases "xs = []")
          case True
          have li: "lastIndexOf (res st) slash = - 1"
            using lastIndexOf_join_slash[of xs s] good snoc res True by simp
          show ?thesis
            unfolding step using c1 c2 nd' li ne True
            by (intro ns_inv_after_sep)
               (auto simp: ns_body_def isPosixPathSeparator_def Let_def good_stack_def)
        next
          case xne: False
          have li: "lastIndexOf (res st) slash = int (length (join_slash xs))"
            using lastIndexOf_join_slash[of xs s] good snoc res xne by simp
          have big: "length (res st) > 2"
            using join_slash_length_ge3[of xs s] good snoc res xne by simp
          have r: "slice (res st) 0 (int (length (join_slash xs))) = join_slash xs"
            using res snoc xne by (simp add: join_slash_snoc slice_prefix)
          have l': "int (length (join_slash xs)) - 1 - lastIndexOf (join_slash xs) slash
                    = int (length (last xs))"
            using last_segment_length[OF gxs xne] .
          show ?thesis
            unfolding step using c1 c2 nd' li big r l' gxs xne
            by (intro ns_inv_after_sep)
               (auto simp: ns_body_def isPosixPathSeparator_def Let_def)
        qed
      qed
    qed
  next
    case push
    have c1: "\<not> (lastSlash st = int i - 1 \<or> dots st = 1)" and c2: "dots st \<noteq> 2"
      using ls dots push by (auto simp: dots_of_simps)
    have step: "seg_step allow stack cur = stack @ [cur]"
      using push by (simp add: seg_step_def)
    have e: "res st = [] \<longleftrightarrow> stack = []"
      using good res join_slash_Nil_iff[of stack] by simp
    have g': "good_stack (stack @ [cur])"
      using good push nsl by (simp add: good_stack_snoc)
    show ?thesis
      unfolding step using c1 c2 sl e g' res ls
      by (intro ns_inv_after_sep)
         (auto simp: ns_body_def isPosixPathSeparator_def Let_def join_slash_snoc)
  qed
qed

lemma ns_loop_seg_run:
  "ns_inv path i st stack cur \<Longrightarrow> i \<le> length path \<Longrightarrow>
   ns_loop path allow i st = join_slash (seg_run allow stack cur (drop i path))"
proof (induction "length path - i" arbitrary: i st stack cur)
  case 0
  then have i: "i = length path" by simp
  show ?case
  proof (cases "isPosixPathSeparator (code st)")
    case True
    then have "cur = []"
      using "0.prems"(1) by (simp add: ns_inv_def isPosixPathSeparator_def)
    then have "seg_step allow stack cur = stack"
      by (simp add: seg_step_def)
    moreover have "res st = join_slash stack"
      using "0.prems"(1) by (simp add: ns_inv_def)
    ultimately show ?thesis
      using True i by (subst ns_loop.simps) simp
  next
    case False
    have "ns_inv path (Suc i) (ns_body path allow i slash st) (seg_step allow stack cur) []"
      using "0.prems" by (rule ns_body_sep)
    then have "res (ns_body path allow i slash st) = join_slash (seg_step allow stack cur)"
      by (simp add: ns_inv_def)
    then show ?thesis
      using False i by (subst ns_loop.simps, subst ns_loop.simps) simp
  qed
next
  case (Suc n)
  then have i: "i < length path" by simp
  have d: "drop i path = path ! i # drop (Suc i) path"
    using i by (simp add: Cons_nth_drop_Suc)
  have n: "n = length path - Suc i"
    using Suc.hyps(2) by simp
  show ?case
  proof (cases "path ! i = slash")
    case True
    have "ns_inv path (Suc i) (ns_body path allow i slash st) (seg_step allow stack cur) []"
      using Suc.prems by (rule ns_body_sep)
    from Suc.hyps(1)[OF n this] i
    have "ns_loop path allow (Suc i) (ns_body path allow i slash st)
          = join_slash (seg_run allow (seg_step allow stack cur) [] (drop (Suc i) path))"
      by simp
    then show ?thesis
      using i True d by (subst ns_loop.simps) simp
  next
    case False
    have "ns_inv path (Suc i) (ns_body path allow i (path ! i) st) stack (cur @ [path ! i])"
      using Suc.prems(1) i False by (rule ns_body_other)
    from Suc.hyps(1)[OF n this] i
    have "ns_loop path allow (Suc i) (ns_body path allow i (path ! i) st)
          = join_slash (seg_run allow stack (cur @ [path ! i]) (drop (Suc i) path))"
      by simp
    then show ?thesis
      using i False d by (subst ns_loop.simps) simp
  qed
qed

lemma normalizeString_seg_run:
  "normalizeString path allow = join_slash (seg_run allow [] [] path)"
proof -
  have "ns_inv path 0 \<lparr>res = [], lastSegmentLength = 0, lastSlash = - 1, dots = 0, code = CHR 0x00\<rparr> [] []"
    by (simp add: ns_inv_def good_stack_def dots_of_simps)
  from ns_loop_seg_run[OF this] show ?thesis
    by (simp add: normalizeString_def)
qed

lemma normal_stack_good: "normal_stack S \<Longrightarrow> good_stack S"
  by (simp add: normal_stack_def good_stack_def)

lemma seg_run_append_sep:
  "slash \<notin> set xs \<Longrightarrow>
   seg_run allow st cur (xs @ slash # ys) = seg_run allow (seg_step allow st (cur @ xs)) [] ys"
  by (induction xs arbitrary: cur) auto

lemma seg_run_join_slash:
  "normal_stack S \<Longrightarrow> seg_run allow st [] (join_slash S @ slash # r) = seg_run allow (st @ S) [] r"
proof (induction S arbitrary: st rule: join_slash.induct)
  case 1
  then show ?case by (simp add: seg_step_def)
next
  case (2 s)
  then have "slash \<notin> set s" "seg_step allow st s = st @ [s]"
    by (simp_all add: normal_stack_def seg_step_def)
  then show ?case
    using seg_run_append_sep[of s allow st "[]" r] by simp
next
  case (3 s t ss)
  then have s: "slash \<notin> set s" "seg_step allow st s = st @ [s]" and n: "normal_stack (t # ss)"
    by (simp_all add: normal_stack_def seg_step_def)
  have "seg_run allow st [] (join_slash (s # t # ss) @ slash # r)
        = seg_run allow st [] (s @ slash # (join_slash (t # ss) @ slash # r))"
    by simp
  also have "\<dots> = seg_run allow (st @ [s]) [] (join_slash (t # ss) @ slash # r)"
    using seg_run_append_sep[of s allow st "[]"] s by simp
  also have "\<dots> = seg_run allow ((st @ [s]) @ t # ss) [] r"
    using "3.IH"[OF n] .
  finally show ?case by simp
qed

lemma seg_step_False_normal:
  "normal_stack st \<Longrightarrow> slash \<notin> set cur \<Longrightarrow> normal_stack (seg_step False st cur)"
  by (auto simp: seg_step_def normal_stack_def dest: in_set_butlastD)

lemma seg_run_False_normal:
  "normal_stack st \<Longrightarrow> slash \<notin> set cur \<Longrightarrow> normal_stack (seg_run False st cur xs)"
proof (induction xs arbitrary: st cur)
  case Nil
  then show ?case by (simp add: seg_step_False_normal)
next
  case (Cons c cs)
  show ?case
  proof (cases "c = slash")
    case True
    have "normal_stack (seg_step False st cur)"
      using Cons.prems by (rule seg_step_False_normal)
    from Cons.IH[OF this, of "[]"] True show ?thesis by simp
  next
    case False
    then have "slash \<notin> set (cur @ [c])" using Cons.prems by simp
    from Cons.IH[OF Cons.prems(1) this] False show ?thesis by simp
  qed
qed

text \<open>A path without the substring \<open>..\<close> only ever extends the stack.\<close>

lemma seg_step_extends:
  assumes "cur \<noteq> ''..''" "slash \<notin> set cur"
  shows "\<exists>e. seg_step allow S cur = S @ e \<and> good_stack e \<and>
             (cur \<noteq> [] \<and> last cur \<noteq> dot \<longrightarrow> e \<noteq> [])"
proof (cases "cur = [] \<or> cur = ''.''")
  case True
  then have "seg_step allow S cur = S @ []" by (auto simp: seg_step_def)
  moreover have "\<not> (cur \<noteq> [] \<and> last cur \<noteq> dot)" using True by auto
  ultimately show ?thesis by (metis good_stack_def empty_iff list.set(1))
next
  case False
  then have "seg_step allow S cur = S @ [cur]" using assms by (auto simp: seg_step_def)
  moreover have "good_stack [cur]" using False assms by (simp add: good_stack_def)
  ultimately show ?thesis by blast
qed

lemma good_stack_append: "good_stack (xs @ ys) \<longleftrightarrow> good_stack xs \<and> good_stack ys"
  by (auto simp: good_stack_def)

lemma seg_run_extends:
  assumes "\<not> sublist ''..'' (cur @ r)" "slash \<notin> set cur"
  shows "\<exists>ext. seg_run allow S cur r = S @ ext \<and> good_stack ext \<and>
           (cur @ r \<noteq> [] \<and> last (cur @ r) \<noteq> slash \<and> last (cur @ r) \<noteq> dot \<longrightarrow> ext \<noteq> [])"
  using assms
proof (induction r arbitrary: S cur)
  case Nil
  then have "cur \<noteq> ''..''" by auto
  from seg_step_extends[OF this Nil.prems(2), of allow S] show ?case by auto
next
  case (Cons c cs)
  show ?case
  proof (cases "c = slash")
    case True
    have "sublist cur (cur @ c # cs)" by (metis sublist_appendI append_Nil)
    then have "cur \<noteq> ''..''" using Cons.prems(1) by auto
    from seg_step_extends[OF this Cons.prems(2), of allow S]
    obtain e where e: "seg_step allow S cur = S @ e" "good_stack e" by blast
    have "sublist cs (cur @ c # cs)"
      by (metis suffix_imp_sublist suffix_append suffix_ConsI suffix_order.order_refl)
    then have ns: "\<not> sublist ''..'' ([] @ cs)"
      using Cons.prems(1) by (metis append_Nil sublist_order.order_trans)
    from Cons.IH[OF ns, of "S @ e"]
    obtain ext where ext: "seg_run allow (S @ e) [] cs = (S @ e) @ ext" "good_stack ext"
      "[] @ cs \<noteq> [] \<and> last ([] @ cs) \<noteq> slash \<and> last ([] @ cs) \<noteq> dot \<longrightarrow> ext \<noteq> []"
      by auto
    have "seg_run allow S cur (c # cs) = S @ (e @ ext)"
      using True e ext by simp
    moreover have "good_stack (e @ ext)"
      using e ext by (simp add: good_stack_append)
    moreover have "cur @ c # cs \<noteq> [] \<and> last (cur @ c # cs) \<noteq> slash \<and> last (cur @ c # cs) \<noteq> dot
                   \<longrightarrow> e @ ext \<noteq> []"
      using ext(3) True by (cases cs) auto
    ultimately show ?thesis by blast
  next
    case False
    have 1: "\<not> sublist ''..'' ((cur @ [c]) @ cs)" using Cons.prems(1) by simp
    have 2: "slash \<notin> set (cur @ [c])" using Cons.prems(2) False by simp
    from Cons.IH[OF 1 2, of S] show ?thesis using False by simp
  qed
qed

lemma join_slash_append:
  "join_slash (xs @ ys) =
     (if xs = [] then join_slash ys else if ys = [] then join_slash xs
      else join_slash xs @ slash # join_slash ys)"
proof (induction xs rule: join_slash.induct)
  case 1
  then show ?case by simp
next
  case (2 s)
  then show ?case by (cases ys) simp_all
next
  case (3 s t ss)
  then show ?case by simp
qed

lemma suffix_strip_parents: "suffix (strip_parents s) s"
proof (induction s rule: strip_parents.induct)
  case (1 a b c r)
  then show ?case
    by (auto intro: suffix_ConsI)
qed simp_all

lemma toLowerCase_char_seps:
  "toLowerCase_char slash = slash" "toLowerCase_char backslash = backslash"
  "toLowerCase_char dot = dot"
  by (simp_all add: toLowerCase_char_def)

lemma suffix_map_dropWhile:
  assumes "suffix t (map f xs)" "\<And>x. P x \<Longrightarrow> f x \<notin> set t" "t \<noteq> []"
  shows "suffix t (map f (dropWhile P xs))"
  using assms(1)
proof (induction xs)
  case Nil
  then show ?case by simp
next
  case (Cons x xs)
  show ?case
  proof (cases "P x")
    case True
    have "t \<noteq> f x # map f xs"
      using assms(2)[OF True] by auto
    then have "suffix t (map f xs)"
      using Cons.prems by (simp add: suffix_Cons)
    then show ?thesis using Cons.IH True by simp
  next
    case False
    then show ?thesis using Cons.prems by simp
  qed
qed

lemma sanitize_SomeD:
  assumes "sanitize pth = Some r"
  shows "\<not> includes_str (cleaned_of pth) ''..''"
    and "endsWith (toLowerCase (cleaned_of pth)) ''.json''"
    and "r = strip_separators (cleaned_of pth)"
  using assms by (auto simp: sanitize_def Let_def split: if_splits)

lemma sanitize_no_dotdot:
  assumes "sanitize pth = Some r"
  shows "\<not> sublist ''..'' r"
proof
  assume a: "sublist ''..'' r"
  have "suffix r (cleaned_of pth)"
    using sanitize_SomeD(3)[OF assms] by (simp add: strip_separators_def suffix_dropWhile)
  then have "sublist r (cleaned_of pth)" by (rule suffix_imp_sublist)
  with a have "sublist ''..'' (cleaned_of pth)"
    by (rule sublist_order.order_trans)
  then show False
    using sanitize_SomeD(1)[OF assms] by (simp add: includes_str_def)
qed

lemma sanitize_json_suffix:
  assumes "sanitize pth = Some r"
  shows "suffix ''.json'' (toLowerCase r)"
proof -
  have "suffix ''.json'' (map toLowerCase_char (cleaned_of pth))"
    using sanitize_SomeD(2)[OF assms] by (simp add: endsWith_def toLowerCase_def)
  then have "suffix ''.json'' (map toLowerCase_char
               (dropWhile (\<lambda>c. c = slash \<or> c = backslash) (cleaned_of pth)))"
    by (rule suffix_map_dropWhile) (auto simp: toLowerCase_char_seps)
  then show ?thesis
    using sanitize_SomeD(3)[OF assms] by (simp add: toLowerCase_def strip_separators_def)
qed

lemma sanitize_last:
  assumes "sanitize pth = Some r"
  shows "r \<noteq> []" and "last r \<noteq> slash" and "last r \<noteq> dot"
proof -
  from sanitize_json_suffix[OF assms] obtain pre where
    pre: "map toLowerCase_char r = pre @ ''.json''"
    by (auto simp: suffix_def toLowerCase_def)
  then show ne: "r \<noteq> []" by auto
  have "last (map toLowerCase_char r) = CHR ''n''"
    using pre by simp
  then have l: "toLowerCase_char (last r) = CHR ''n''"
    using ne by (simp add: last_map)
  show "last r \<noteq> slash" using l by (auto simp: toLowerCase_char_seps)
  show "last r \<noteq> dot" using l by (auto simp: toLowerCase_char_seps)
qed

lemma resolve_loop_absolute:
  "a \<or> (cwd \<noteq> [] \<and> cwd ! 0 = slash) \<Longrightarrow> snd (resolve_loop (ps @ [cwd]) acc a)"
  by (induction ps arbitrary: acc a) auto

lemma path_resolve_root:
  assumes "startsWith cwd ''/''"
  shows "\<exists>S. normal_stack S \<and> path_resolve cwd args = slash # join_slash S"
proof -
  from assms have c: "cwd \<noteq> [] \<and> cwd ! 0 = slash"
    by (auto simp: startsWith_def prefix_def)
  obtain rp a where rl: "resolve_loop (rev args @ [cwd]) [] False = (rp, a)"
    by (cases "resolve_loop (rev args @ [cwd]) [] False")
  have a using resolve_loop_absolute[of False cwd "rev args" "[]"] c rl by simp
  then have "path_resolve cwd args = slash # join_slash (seg_run False [] [] rp)"
    using rl by (simp add: path_resolve_def normalizeString_seg_run)
  moreover have "normal_stack (seg_run False [] [] rp)"
    by (rule seg_run_False_normal) (simp_all add: normal_stack_def)
  ultimately show ?thesis by blast
qed

lemma path_join_root:
  assumes S: "normal_stack S" and r: "r \<noteq> []" "\<not> sublist ''..'' r"
    "last r \<noteq> slash" "last r \<noteq> dot"
  shows "\<exists>ext. ext \<noteq> [] \<and> good_stack ext \<and>
           path_join [slash # join_slash S, r] = slash # join_slash (S @ ext)"
proof -
  let ?path = "slash # join_slash S @ slash # r"
  from seg_run_extends[of "[]" r False S] r
  obtain ext where ext: "seg_run False S [] r = S @ ext" "good_stack ext" "ext \<noteq> []"
    by auto
  have "seg_run False [] [] ?path = seg_run False [] [] (join_slash S @ slash # r)"
    by (simp add: seg_step_def)
  also have "\<dots> = seg_run False S [] r"
    using seg_run_join_slash[OF S, of False "[]" r] by simp
  finally have ns: "normalizeString ?path False = join_slash (S @ ext)"
    using ext(1) by (simp add: normalizeString_seg_run)
  have "good_stack (S @ ext)"
    using S ext(2) by (simp add: good_stack_append normal_stack_good)
  then have ne: "join_slash (S @ ext) \<noteq> []"
    using join_slash_Nil_iff[of "S @ ext"] ext(3) by simp
  have lastp: "?path ! (length ?path - 1) = last r"
    using r(1) by (metis last_conv_nth last_appendR last_ConsR list.distinct(1) append_is_Nil_conv)
  have "path_join [slash # join_slash S, r] = path_normalize ?path"
    using r(1) by (simp add: path_join_def)
  also have "\<dots> = slash # join_slash (S @ ext)"
  proof -
    have "length ?path \<noteq> 0" "?path ! 0 = slash" by simp_all
    then show ?thesis
      unfolding path_normalize_def Let_def using ns ne lastp r(3)
      by (simp only: if_False if_True) simp
  qed
  finally show ?thesis
    using ext by blast
qed

lemma last_join_slash: "good_stack S \<Longrightarrow> S \<noteq> [] \<Longrightarrow> last (join_slash S) \<noteq> slash"
proof -
  assume g: "good_stack S" and ne: "S \<noteq> []"
  then obtain xs s where S: "S = xs @ [s]" by (meson rev_exhaust)
  then have s: "s \<noteq> []" "slash \<notin> set s" using g by (simp_all add: good_stack_snoc)
  then have "last (join_slash S) = last s"
    unfolding S by (simp add: join_slash_snoc)
  then show ?thesis using s by (metis last_in_set)
qed

lemma inside_extend:
  assumes "good_stack S" "ext \<noteq> []"
  shows "inside (slash # join_slash S) (slash # join_slash (S @ ext))"
proof (cases "S = []")
  case True
  then show ?thesis by (simp add: inside_def startsWith_def endsWith_def)
next
  case False
  have nl: "last (slash # join_slash S) \<noteq> slash"
    using last_join_slash[OF assms(1) False] join_slash_Nil_iff[OF assms(1)] False by simp
  have "\<not> endsWith (slash # join_slash S) ''/''"
  proof
    assume "endsWith (slash # join_slash S) ''/''"
    then obtain zs where "slash # join_slash S = zs @ [slash]"
      by (auto simp: endsWith_def suffix_def)
    then have "last (slash # join_slash S) = slash"
      by (metis last_snoc)
    with nl show False by simp
  qed
  then show ?thesis
    using False assms(2) by (simp add: inside_def startsWith_def join_slash_append)
qed

lemma dirname_loop_segment:
  "slash \<notin> set s \<Longrightarrow> k < length s \<Longrightarrow>
   dirname_loop (pre @ slash # s) (length pre + 1 + k) m
     = (if pre = [] then - 1 else int (length pre))"
proof (induction k arbitrary: m)
  case 0
  have "(pre @ slash # s) ! (length pre + 1) = s ! 0"
    by (simp add: nth_append)
  moreover have "s ! 0 \<noteq> slash" using 0 by (metis nth_mem)
  ultimately show ?case
    by (subst dirname_loop.simps, subst dirname_loop.simps) (cases pre; simp add: nth_append)
next
  case (Suc k)
  have "(pre @ slash # s) ! (length pre + 1 + Suc k) = s ! Suc k"
    by (simp add: nth_append)
  moreover have "s ! Suc k \<noteq> slash" using Suc.prems by (metis nth_mem)
  ultimately show ?case
    using Suc.IH[OF Suc.prems(1), of False] Suc.prems(2)
    by (subst dirname_loop.simps) simp
qed

lemma path_dirname_pre:
  assumes "slash \<notin> set s" "s \<noteq> []"
  shows "pre \<noteq> [] \<Longrightarrow> path_dirname (slash # pre @ slash # s) = slash # pre"
    and "path_dirname (slash # s) = ''/''"
proof -
  obtain n where n: "length s = Suc n"
    using assms(2) by (cases s) auto
  then have k: "n < length s" by simp
  have l: "length ((slash # pre) @ slash # s) - 1 = length (slash # pre) + 1 + n"
    using n by simp
  have e: "dirname_loop ((slash # pre) @ slash # s) (length ((slash # pre) @ slash # s) - 1) True
             = int (length (slash # pre))"
    unfolding l using dirname_loop_segment[OF assms(1) k, of "slash # pre" True] by simp
  have sl: "slice ((slash # pre) @ slash # s) 0 (int (length (slash # pre))) = slash # pre"
    by (rule slice_prefix)
  show "path_dirname (slash # pre @ slash # s) = slash # pre" if "pre \<noteq> []"
  proof -
    have "path_dirname ((slash # pre) @ slash # s) = slash # pre"
      unfolding path_dirname_def Let_def e sl using that by simp
    then show ?thesis by simp
  qed
  have l0: "length ([] @ slash # s) - 1 = length ([] :: string) + 1 + n"
    using n by simp
  have e0: "dirname_loop ([] @ slash # s) (length ([] @ slash # s) - 1) True = - 1"
    unfolding l0 using dirname_loop_segment[OF assms(1) k, of "[]" True] by simp
  have "path_dirname ([] @ slash # s) = ''/''"
    unfolding path_dirname_def Let_def e0 by simp
  then show "path_dirname (slash # s) = ''/''" by simp
qed

lemma path_dirname_root:
  assumes "good_stack (T @ [s])"
  shows "path_dirname (slash # join_slash (T @ [s])) = (if T = [] then ''/'' else slash # join_slash T)"
proof -
  have s: "slash \<notin> set s" "s \<noteq> []"
    using assms by (simp_all add: good_stack_snoc)
  have "join_slash T = [] \<longleftrightarrow> T = []"
    using assms join_slash_Nil_iff[of T] by (simp add: good_stack_snoc)
  then show ?thesis
    using path_dirname_pre[OF s] by (simp add: join_slash_snoc)
qed

lemma split_where_not_Nil: "split_where sep s \<noteq> []"
  by (induction s) (auto split: list.splits)

lemma split_where_hd_prefix: "prefix (hd (split_where sep s)) s"
  by (induction s) (auto split: list.splits)

lemma split_where_sublist: "seg \<in> set (split_where sep s) \<Longrightarrow> sublist seg s"
proof (induction s arbitrary: seg)
  case Nil
  then show ?case by simp
next
  case (Cons c cs)
  show ?case
  proof (cases "sep c")
    case True
    then have "seg = [] \<or> seg \<in> set (split_where sep cs)"
      using Cons.prems by auto
    then show ?thesis
      using Cons.IH by (auto intro: sublist_Cons_right[THEN iffD2])
  next
    case False
    obtain s ss where sp: "split_where sep cs = s # ss"
      using split_where_not_Nil[of sep cs] by (cases "split_where sep cs") auto
    then have "seg = c # s \<or> seg \<in> set ss"
      using Cons.prems False by auto
    then show ?thesis
    proof
      assume "seg = c # s"
      moreover have "prefix s cs"
        using split_where_hd_prefix[of sep cs] sp by simp
      ultimately show ?thesis
        by (simp add: prefix_imp_sublist)
    next
      assume "seg \<in> set ss"
      then have "sublist seg cs" using Cons.IH sp by simp
      then show ?thesis by (simp add: sublist_Cons_right)
    qed
  qed
qed

lemma sanitize_confined:
  assumes cwd: "startsWith cwd ''/''" and san: "sanitize pth = Some r"
  shows "inside (path_resolve cwd args) (path_join [path_resolve cwd args, r])"
    and "inside (path_resolve cwd args) (path_dirname (path_join [path_resolve cwd args, r]))"
proof -
  from path_resolve_root[OF cwd, of args]
  obtain S where S: "normal_stack S" and root: "path_resolve cwd args = slash # join_slash S"
    by blast
  have gS: "good_stack S" using S by (rule normal_stack_good)
  from path_join_root[OF S sanitize_last(1)[OF san] sanitize_no_dotdot[OF san]
      sanitize_last(2)[OF san] sanitize_last(3)[OF san]]
  obtain ext where ext: "ext \<noteq> []" "good_stack ext"
    and j: "path_join [slash # join_slash S, r] = slash # join_slash (S @ ext)"
    by blast
  show "inside (path_resolve cwd args) (path_join [path_resolve cwd args, r])"
    unfolding root j using gS ext(1) by (rule inside_extend)
  obtain e s where es: "ext = e @ [s]"
    using ext(1) by (meson rev_exhaust)
  have g: "good_stack ((S @ e) @ [s])"
    using gS ext(2) es by (simp add: good_stack_append)
  have d: "path_dirname (slash # join_slash ((S @ e) @ [s]))
           = (if S @ e = [] then ''/'' else slash # join_slash (S @ e))"
    using g by (rule path_dirname_root)
  have "inside (slash # join_slash S) (path_dirname (slash # join_slash (S @ ext)))"
  proof (cases "e = []")
    case True
    then show ?thesis
      using d es by (auto simp: inside_def)
  next
    case False
    then have "path_dirname (slash # join_slash (S @ ext)) = slash # join_slash (S @ e)"
      using d es by simp
    then show ?thesis
      using inside_extend[OF gS False] by simp
  qed
  then show "inside (path_resolve cwd args) (path_dirname (path_join [path_resolve cwd args, r]))"
    unfolding root j .
qed

section \<open>The store after a write\<close>

lemma sanitize_no_dotdot_segment:
  assumes "sanitize pth = Some r"
  shows "''..'' \<notin> set (split_where sep r)"
proof
  assume "''..'' \<in> set (split_where sep r)"
  then have "sublist ''..'' r" by (rule split_where_sublist)
  then show False using sanitize_no_dotdot[OF assms] by simp
qed

lemma writeFile_then_read:
  assumes "writeFile fs p txt = Inr fs'"
  shows "existsSync fs' p" and "readFile fs' p = Inr txt"
proof -
  have ne: "p \<noteq> ''/''"
    using assms by (auto simp: writeFile_def node_at_def)
  have "fs' = fs(p \<mapsto> File txt)"
    using assms by (auto simp: writeFile_def split: option.splits node.splits)
  then have "node_at fs' p = Some (File txt)"
    using ne by (simp add: node_at_def)
  then show "existsSync fs' p" and "readFile fs' p = Inr txt"
    by (simp_all add: existsSync_def readFile_def)
qed

lemma put_handler_WrittenD:
  assumes "put_handler api root fs req_path (Some doc) pretty = (Written p n, fs')"
  shows "\<exists>fs1. sanitize req_path = Some p \<and> p \<noteq> [] \<and>
           writeFile fs1 (path_join [root, p]) (JSON_stringify api pretty doc) = Inr fs'"
  using assms
  by (auto simp: put_handler_def Let_def split: option.splits if_splits sum.splits)

section \<open>What the handlers read and write\<close>

lemma split_where_no_sep:
  "slash \<notin> set s \<Longrightarrow> split_where isPosixPathSeparator s = [s]"
  by (induction s) (auto simp: isPosixPathSeparator_def)

lemma split_where_at_sep:
  "slash \<notin> set s \<Longrightarrow>
   split_where isPosixPathSeparator (s @ slash # r) = s # split_where isPosixPathSeparator r"
  by (induction s) (auto simp: isPosixPathSeparator_def)

lemma split_where_join_slash:
  "good_stack T \<Longrightarrow> T \<noteq> [] \<Longrightarrow> split_where isPosixPathSeparator (join_slash T) = T"
proof (induction T rule: join_slash.induct)
  case 1
  then show ?case by simp
next
  case (2 s)
  then show ?case by (simp add: good_stack_def split_where_no_sep)
next
  case (3 s t ss)
  then have "slash \<notin> set s" "good_stack (t # ss)"
    by (simp_all add: good_stack_def)
  then show ?case
    using "3.IH" by (simp add: split_where_at_sep)
qed

lemma segments_of_root:
  assumes "good_stack T"
  shows "filter (\<lambda>s. s \<noteq> []) (split_where isPosixPathSeparator (slash # join_slash T)) = T"
proof (cases "T = []")
  case True
  then show ?thesis by (simp add: isPosixPathSeparator_def)
next
  case False
  have "filter (\<lambda>s. s \<noteq> []) T = T"
    using assms by (simp add: good_stack_def)
  then show ?thesis
    using split_where_join_slash[OF assms False] by (simp add: isPosixPathSeparator_def)
qed

lemma mkdir_walk_frame:
  "mkdir_walk fs cur segs = Inr fs' \<Longrightarrow>
   fs' q = fs q \<or> (fs' q = Some Dir \<and> q \<in> set (walk_paths cur segs))"
proof (induction segs arbitrary: fs cur)
  case Nil
  then show ?case by simp
next
  case (Cons s ss)
  let ?p = "cur @ [slash] @ s"
  show ?case
  proof (cases "node_at fs ?p")
    case None
    then have "mkdir_walk (fs(?p \<mapsto> Dir)) ?p ss = Inr fs'"
      using Cons.prems by (simp add: Let_def)
    from Cons.IH[OF this] show ?thesis
      by (cases "q = ?p") auto
  next
    case (Some n)
    then have "n = Dir" and "mkdir_walk fs ?p ss = Inr fs'"
      using Cons.prems by (cases n; simp add: Let_def)+
    from Cons.IH[OF this(2)] show ?thesis by auto
  qed
qed

lemma walk_paths_shape:
  "good_stack segs \<Longrightarrow> q \<in> set (walk_paths cur segs) \<Longrightarrow> \<exists>t. t \<noteq> [] \<and> q = cur @ slash # t"
proof (induction segs arbitrary: cur)
  case Nil
  then show ?case by simp
next
  case (Cons s ss)
  have s: "s \<noteq> []" and g: "good_stack ss"
    using Cons.prems(1) by (simp_all add: good_stack_def)
  from Cons.prems(2) consider "q = cur @ [slash] @ s" | "q \<in> set (walk_paths (cur @ [slash] @ s) ss)"
    by auto
  then show ?case
  proof cases
    case 1
    then show ?thesis using s by auto
  next
    case 2
    from Cons.IH[OF g 2] obtain t where "t \<noteq> []" "q = (cur @ [slash] @ s) @ slash # t"
      by blast
    then have "q = cur @ slash # (s @ slash # t)" by simp
    then show ?thesis by blast
  qed
qed

lemma walk_paths_append:
  "walk_paths cur (xs @ ys)
     = walk_paths cur xs @ walk_paths (cur @ (if xs = [] then [] else slash # join_slash xs)) ys"
proof (induction xs arbitrary: cur)
  case Nil
  then show ?case by simp
next
  case (Cons x xs)
  show ?case
    using Cons.IH[of "cur @ [slash] @ x"] by (cases xs) simp_all
qed

lemma inside_below:
  assumes "good_stack S"
  shows "inside (slash # join_slash S) ((if S = [] then [] else slash # join_slash S) @ slash # t)"
proof (cases "S = []")
  case True
  then show ?thesis by (simp add: inside_def startsWith_def endsWith_def)
next
  case False
  have nl: "last (slash # join_slash S) \<noteq> slash"
    using last_join_slash[OF assms False] join_slash_Nil_iff[OF assms] False by simp
  have "\<not> endsWith (slash # join_slash S) ''/''"
  proof
    assume "endsWith (slash # join_slash S) ''/''"
    then obtain zs where "slash # join_slash S = zs @ [slash]"
      by (auto simp: endsWith_def suffix_def)
    then have "last (slash # join_slash S) = slash"
      by (metis last_snoc)
    with nl show False by simp
  qed
  then show ?thesis
    using False by (simp add: inside_def startsWith_def)
qed


lemma file_path_shape:
  assumes cwd: "startsWith cwd ''/''" and san: "sanitize pth = Some r"
  shows "\<exists>S e. normal_stack S \<and> good_stack (S @ e) \<and>
           path_resolve cwd args = slash # join_slash S \<and>
           inside (path_resolve cwd args) (path_join [path_resolve cwd args, r]) \<and>
           path_dirname (path_join [path_resolve cwd args, r]) = slash # join_slash (S @ e)"
proof -
  from path_resolve_root[OF cwd, of args]
  obtain S where S: "normal_stack S" and root: "path_resolve cwd args = slash # join_slash S"
    by blast
  have gS: "good_stack S" using S by (rule normal_stack_good)
  from path_join_root[OF S sanitize_last(1)[OF san] sanitize_no_dotdot[OF san]
      sanitize_last(2)[OF san] sanitize_last(3)[OF san]]
  obtain ext where ext: "ext \<noteq> []" "good_stack ext"
    and j: "path_join [slash # join_slash S, r] = slash # join_slash (S @ ext)"
    by blast
  obtain e s where es: "ext = e @ [s]"
    using ext(1) by (meson rev_exhaust)
  have g: "good_stack ((S @ e) @ [s])"
    using gS ext(2) es by (simp add: good_stack_append)
  have ge: "good_stack (S @ e)"
    using gS ext(2) es by (simp add: good_stack_append)
  have "path_dirname (slash # join_slash ((S @ e) @ [s]))
           = (if S @ e = [] then ''/'' else slash # join_slash (S @ e))"
    using g by (rule path_dirname_root)
  then have d: "path_dirname (slash # join_slash (S @ ext)) = slash # join_slash (S @ e)"
    using es by (cases "S @ e = []") simp_all
  have "inside (path_resolve cwd args) (path_join [path_resolve cwd args, r])"
    using sanitize_confined(1)[OF cwd san] .
  then show ?thesis
    using S ge root j d by (intro exI[of _ S] exI[of _ e]) simp
qed

lemma get_handler_reads_inside:
  assumes cwd: "startsWith cwd ''/''" and agree: "agree_inside (path_resolve cwd args) fs fs'"
  shows "fst (get_handler api (path_resolve cwd args) fs req_path pretty)
         = fst (get_handler api (path_resolve cwd args) fs' req_path pretty)"
proof (cases "sanitize req_path")
  case None
  then show ?thesis by (simp add: get_handler_def)
next
  case (Some r)
  have "inside (path_resolve cwd args) (path_join [path_resolve cwd args, r])"
    using sanitize_confined(1)[OF cwd Some] .
  then have "fs (path_join [path_resolve cwd args, r]) = fs' (path_join [path_resolve cwd args, r])"
    using agree by (simp add: agree_inside_def)
  then have "node_at fs (path_join [path_resolve cwd args, r])
             = node_at fs' (path_join [path_resolve cwd args, r])"
    by (simp add: node_at_def)
  then show ?thesis
    using Some
    by (simp add: get_handler_def Let_def existsSync_def readFile_def
        split: option.splits sum.splits)
qed

lemma ensureDir_frame:
  assumes S: "normal_stack S" and g: "good_stack (S @ e)"
    and ex: "directory_exists fs (slash # join_slash S)"
    and out: "\<not> inside (slash # join_slash S) q"
    and mk: "mkdir_recursive fs (slash # join_slash (S @ e)) = Inr fs1"
  shows "fs1 q = fs q"
proof -
  have gS: "good_stack S" using S by (rule normal_stack_good)
  have ge: "good_stack e" using g by (simp add: good_stack_append)
  have w: "mkdir_walk fs [] (S @ e) = Inr fs1"
    using mk segments_of_root[OF g] by (simp add: mkdir_recursive_def)
  from mkdir_walk_frame[OF w, of q] show ?thesis
  proof
    assume "fs1 q = fs q"
    then show ?thesis .
  next
    assume a: "fs1 q = Some Dir \<and> q \<in> set (walk_paths [] (S @ e))"
    then have "q \<in> set (walk_paths [] S) \<or>
               q \<in> set (walk_paths (if S = [] then [] else slash # join_slash S) e)"
      using walk_paths_append[of "[]" S e] by simp
    then show ?thesis
    proof
      assume q: "q \<in> set (walk_paths [] S)"
      then have "node_at fs q = Some Dir"
        using ex segments_of_root[OF gS] by (simp add: directory_exists_def list_all_iff)
      moreover have "q \<noteq> ''/''"
        using walk_paths_shape[OF gS q] by auto
      ultimately show ?thesis using a by (simp add: node_at_def)
    next
      assume "q \<in> set (walk_paths (if S = [] then [] else slash # join_slash S) e)"
      from walk_paths_shape[OF ge this] obtain t where
        "q = (if S = [] then [] else slash # join_slash S) @ slash # t" by blast
      then have "inside (slash # join_slash S) q"
        using inside_below[OF gS, of t] by simp
      with out show ?thesis by simp
    qed
  qed
qed

lemma put_handler_writes_inside:
  assumes cwd: "startsWith cwd ''/''"
    and ex: "directory_exists fs (path_resolve cwd args)"
    and out: "\<not> inside (path_resolve cwd args) q"
  shows "snd (put_handler api (path_resolve cwd args) fs req_path body pretty) q = fs q"
proof (cases "sanitize req_path")
  case None
  then show ?thesis by (simp add: put_handler_def)
next
  case (Some r)
  let ?root = "path_resolve cwd args"
  let ?file = "path_join [?root, r]"
  from file_path_shape[OF cwd Some, of args] obtain S e where
    S: "normal_stack S" and g: "good_stack (S @ e)" and root: "?root = slash # join_slash S"
    and ins: "inside ?root ?file" and d: "path_dirname ?file = slash # join_slash (S @ e)"
    by blast
  have ne: "q \<noteq> ?file" using ins out by auto
  show ?thesis
  proof (cases body)
    case None
    then show ?thesis using Some by (simp add: put_handler_def)
  next
    case (Some doc)
    show ?thesis
    proof (cases "ensureDir fs ?file")
      case (Inl err)
      then show ?thesis
        using \<open>sanitize req_path = Some r\<close> Some by (simp add: put_handler_def Let_def)
    next
      case (Inr fs1)
      then have mk: "mkdir_recursive fs (slash # join_slash (S @ e)) = Inr fs1"
        using d by (simp add: ensureDir_def)
      have f1: "fs1 q = fs q"
        using ensureDir_frame[OF S g _ _ mk] ex out unfolding root by simp
      show ?thesis
      proof (cases "writeFile fs1 ?file (JSON_stringify api pretty doc)")
        case (Inl err)
        then show ?thesis
          using \<open>sanitize req_path = Some r\<close> Some Inr f1
          by (simp add: put_handler_def Let_def)
      next
        case w: (Inr fs2)
        then have "fs2 = fs1(?file \<mapsto> File (JSON_stringify api pretty doc))"
          by (auto simp: writeFile_def split: option.splits node.splits)
        then have "fs2 q = fs q" using ne f1 by simp
        then show ?thesis
          using \<open>sanitize req_path = Some r\<close> Some Inr w
          by (simp add: put_handler_def Let_def)
      qed
    qed
  qed
qed

lemma express_json_defined: "express_json api raw \<noteq> Inr None"
  unfolding express_json_def
  by (simp split: option.splits if_splits)

lemma express_json_refusal:
  "express_json api raw = Inl refused \<Longrightarrow> refused = BadRequest \<or> refused = PayloadTooLarge"
  by (auto simp: express_json_def split: option.splits if_splits)

lemma put_handler_MissingBody_iff:
  "fst (put_handler api root fs req_path body pretty) = MissingBody \<longleftrightarrow>
     (\<exists>cleaned. sanitize req_path = Some cleaned \<and> cleaned \<noteq> []) \<and> body = None"
  by (auto simp: put_handler_def Let_def split: option.splits sum.splits)

section \<open>The claims\<close>

text \<open>
  C1. Whenever \<open>sanitize\<close> returns a path, joining the storage root with it gives a
  location inside the storage root, and so is the directory that \<open>ensureDir\<close> creates
  for it. For the handlers this means: the answer of a \<open>GET\<close> is the same on two
  stores that agree inside the root, and a \<open>GET\<close> changes nothing; a \<open>PUT\<close>, by the
  handler or through the whole route, leaves every path outside the root as it was,
  given that the root exists with the directories above it. The storage root is what
  \<open>path.resolve\<close> returns against an absolute working directory.
\<close>

theorem sanitize_stays_inside_root:
  assumes "startsWith cwd ''/''" and "root = DATA_ROOT cwd env dn"
  shows "(sanitize pth = Some cleaned \<longrightarrow>
            inside root (path_join [root, cleaned]) \<and>
            inside root (path_dirname (path_join [root, cleaned]))) \<and>
         (agree_inside root fs fs' \<longrightarrow>
            fst (get_handler api root fs req_path pretty)
              = fst (get_handler api root fs' req_path pretty)) \<and>
         snd (get_handler api root fs req_path pretty) = fs \<and>
         (directory_exists fs root \<and> \<not> inside root q \<longrightarrow>
            snd (put_handler api root fs req_path body pretty) q = fs q \<and>
            snd (put_route api STORAGE_KEY root fs header req_path raw_body pretty) q = fs q)"
proof -
  have root: "root = path_resolve cwd
      [case env of None \<Rightarrow> dn | Some e \<Rightarrow> if e = [] then dn else e]"
    using assms(2) by (simp add: DATA_ROOT_def)
  have 1: "sanitize pth = Some cleaned \<longrightarrow>
            inside root (path_join [root, cleaned]) \<and>
            inside root (path_dirname (path_join [root, cleaned]))"
    unfolding root using sanitize_confined[OF assms(1)] by blast
  have 2: "agree_inside root fs fs' \<longrightarrow>
            fst (get_handler api root fs req_path pretty)
              = fst (get_handler api root fs' req_path pretty)"
    unfolding root using get_handler_reads_inside[OF assms(1)] by blast
  have 3: "snd (get_handler api root fs req_path pretty) = fs"
    by (simp add: get_handler_def Let_def split: option.splits sum.splits)
  have 4: "snd (put_handler api root fs req_path b pretty) q = fs q"
    if "directory_exists fs root" "\<not> inside root q" for b
    using put_handler_writes_inside[OF assms(1)] that unfolding root by blast
  have 5: "snd (put_route api STORAGE_KEY root fs header req_path raw_body pretty) q = fs q"
    if "directory_exists fs root" "\<not> inside root q"
    using 4[OF that] by (simp add: put_route_def split: sum.splits)
  show ?thesis using 1 2 3 4 5 by blast
qed

theorem sanitize_stays_inside_root_witness:
  "startsWith ''/home/u'' ''/'' \<and>
   ''/home/u/store'' = DATA_ROOT ''/home/u'' (Some ''store'') ''/app'' \<and>
   sanitize ''/public/data/reveal_123.json'' = Some ''public/data/reveal_123.json'' \<and>
   path_join [''/home/u/store'', ''public/data/reveal_123.json'']
     = ''/home/u/store/public/data/reveal_123.json'' \<and>
   inside ''/home/u/store'' (path_join [''/home/u/store'', ''public/data/reveal_123.json'']) \<and>
   inside ''/home/u/store''
     (path_dirname (path_join [''/home/u/store'', ''public/data/reveal_123.json''])) \<and>
   agree_inside ''/home/u/store'' example_store example_store_other \<and>
   fst (get_handler atom_api ''/home/u/store'' example_store_other ''/linked_decks.json'' True)
     = Content ''[]'' \<and>
   fst (get_handler atom_api ''/home/u/store'' example_store ''/linked_decks.json'' True)
     = Content ''[]'' \<and>
   directory_exists example_store ''/home/u/store'' \<and>
   \<not> inside ''/home/u/store'' ''/home/u/notes.json'' \<and>
   fst (put_handler atom_api ''/home/u/store'' example_store ''/public/data/reveal_123.json''
          (Some JEmptyArray) True) = Written ''public/data/reveal_123.json'' 2 \<and>
   snd (put_handler atom_api ''/home/u/store'' example_store ''/public/data/reveal_123.json''
          (Some JEmptyArray) True) ''/home/u/notes.json'' = example_store ''/home/u/notes.json''"
proof -
  have h1: "startsWith ''/home/u'' ''/''" by code_simp
  have h2: "''/home/u/store'' = DATA_ROOT ''/home/u'' (Some ''store'') ''/app''" by code_simp
  have h3: "sanitize ''/public/data/reveal_123.json'' = Some ''public/data/reveal_123.json''"
    by code_simp
  have h4: "path_join [''/home/u/store'', ''public/data/reveal_123.json'']
     = ''/home/u/store/public/data/reveal_123.json''" by code_simp
  have h5: "\<not> inside ''/home/u/store'' ''/home/u/notes.json''" by code_simp
  have h6: "agree_inside ''/home/u/store'' example_store example_store_other"
    unfolding agree_inside_def example_store_other_def using h5 by auto
  have h7: "directory_exists example_store ''/home/u/store''" by code_simp
  have g: "fst (get_handler atom_api ''/home/u/store'' example_store_other ''/linked_decks.json''
      True) = Content ''[]''" by code_simp
  have p: "fst (put_handler atom_api ''/home/u/store'' example_store
      ''/public/data/reveal_123.json'' (Some JEmptyArray) True)
      = Written ''public/data/reveal_123.json'' 2" by code_simp
  show ?thesis
    using h1 h2 h3 h4 h5 h6 h7 g p
      sanitize_stays_inside_root[OF h1 h2, where pth = "''/public/data/reveal_123.json''"
        and cleaned = "''public/data/reveal_123.json''" and fs = example_store
        and fs' = example_store_other and api = atom_api
        and req_path = "''/linked_decks.json''" and pretty = True]
      sanitize_stays_inside_root[OF h1 h2, where fs = example_store and api = atom_api
        and req_path = "''/public/data/reveal_123.json''" and pretty = True
        and q = "''/home/u/notes.json''" and body = "Some JEmptyArray"]
    by simp
qed

text \<open>
  C2. For an input that begins with any number of \<open>../\<close>, whatever follows: when
  \<open>sanitize\<close> returns a path, the path joined to the storage root is inside the root, and
  none of its segments is \<open>..\<close>, whether the segments are cut at slashes only or at
  slashes and backslashes. Otherwise \<open>sanitize\<close> returns \<open>None\<close>, the rejection.
\<close>

theorem sanitize_leading_parents:
  assumes "startsWith cwd ''/''"
    and "sanitize (concat (replicate n ''../'') @ rest) = Some cleaned"
  shows "inside (DATA_ROOT cwd env dn) (path_join [DATA_ROOT cwd env dn, cleaned]) \<and>
         ''..'' \<notin> set (split_where isPosixPathSeparator cleaned) \<and>
         ''..'' \<notin> set (split_where (\<lambda>c. c = slash \<or> c = backslash) cleaned)"
  unfolding DATA_ROOT_def
  using sanitize_confined(1)[OF assms] sanitize_no_dotdot_segment[OF assms(2)] by simp

theorem sanitize_leading_parents_witness:
  "startsWith ''/srv'' ''/'' \<and>
   sanitize (concat (replicate 2 ''../'') @ ''etc/a.json'') = Some ''etc/a.json'' \<and>
   inside (DATA_ROOT ''/srv'' None ''/app'')
     (path_join [DATA_ROOT ''/srv'' None ''/app'', ''etc/a.json'']) \<and>
   ''..'' \<notin> set (split_where isPosixPathSeparator ''etc/a.json'') \<and>
   sanitize (concat (replicate 2 ''../'') @ ''etc/passwd'') = None"
proof -
  have h1: "startsWith ''/srv'' ''/''" by code_simp
  have h2: "sanitize (concat (replicate 2 ''../'') @ ''etc/a.json'') = Some ''etc/a.json''"
    by code_simp
  have h3: "sanitize (concat (replicate 2 ''../'') @ ''etc/passwd'') = None"
    by code_simp
  show ?thesis
    using h1 h2 h3 sanitize_leading_parents[OF h1 h2, of None "''/app''"] by simp
qed

text \<open>
  C3. An input whose normalized form, in lower case, does not end with \<open>.json\<close> is
  rejected. The extension is the suffix, as \<open>sanitize\<close> tests it with \<open>endsWith\<close>.
\<close>

theorem sanitize_rejects_other_extension:
  assumes "\<not> endsWith (toLowerCase (path_normalize pth)) ''.json''"
  shows "sanitize pth = None"
proof -
  have "suffix (cleaned_of pth) (path_normalize pth)"
    unfolding cleaned_of_def by (rule suffix_strip_parents)
  then have s: "suffix (toLowerCase (cleaned_of pth)) (toLowerCase (path_normalize pth))"
    unfolding toLowerCase_def by (rule map_mono_suffix)
  have "\<not> endsWith (toLowerCase (cleaned_of pth)) ''.json''"
  proof
    assume "endsWith (toLowerCase (cleaned_of pth)) ''.json''"
    then have "suffix ''.json'' (toLowerCase (path_normalize pth))"
      using s unfolding endsWith_def by (rule suffix_order.order_trans)
    then show False using assms by (simp add: endsWith_def)
  qed
  then show ?thesis by (simp add: sanitize_def Let_def)
qed

theorem sanitize_rejects_other_extension_witness:
  "\<not> endsWith (toLowerCase (path_normalize ''/data/notes.txt'')) ''.json'' \<and>
   sanitize ''/data/notes.txt'' = None"
proof -
  have h: "\<not> endsWith (toLowerCase (path_normalize ''/data/notes.txt'')) ''.json''"
    by code_simp
  show ?thesis
    using h sanitize_rejects_other_extension[OF h] by simp
qed

text \<open>
  C4. After a successful write of a JSON-serializable document, a read of the same
  request path answers with the rendering of that very document, in the mode the read
  asks for, and parsing the answer gives the document back; the store is the one the
  write left. The modes of the write and of the read are independent. \<open>JSON.parse\<close>
  throws on the empty text.
\<close>

theorem write_then_read_roundtrip:
  assumes "put_handler api root fs req_path (Some doc) pretty_w = (Written p n, fs')"
    and "serializable api doc"
    and "JSON_parse api [] = None"
  shows "get_handler api root fs' req_path pretty_r
           = (Content (JSON_stringify api pretty_r doc), fs') \<and>
         JSON_parse api (JSON_stringify api pretty_r doc) = Some doc"
proof -
  from put_handler_WrittenD[OF assms(1)] obtain fs1 where
    s: "sanitize req_path = Some p" "p \<noteq> []"
    and w: "writeFile fs1 (path_join [root, p]) (JSON_stringify api pretty_w doc) = Inr fs'"
    by blast
  have rt: "JSON_parse api (JSON_stringify api b doc) = Some doc" for b
    using assms(2) by (cases b) (simp_all add: serializable_def)
  have ne: "JSON_stringify api pretty_w doc \<noteq> []"
    using rt[of pretty_w] assms(3) by auto
  have "get_handler api root fs' req_path pretty_r
          = (Content (JSON_stringify api pretty_r doc), fs')"
    using s writeFile_then_read[OF w] ne rt[of pretty_w]
    by (simp add: get_handler_def Let_def)
  then show ?thesis using rt[of pretty_r] by simp
qed

theorem write_then_read_roundtrip_witness:
  "put_handler atom_api ''/srv/data'' Map.empty ''/data/summaries/b3a4c5dc.json''
       (Some JEmptyArray) False
     = (Written ''data/summaries/b3a4c5dc.json'' 2,
        snd (put_handler atom_api ''/srv/data'' Map.empty ''/data/summaries/b3a4c5dc.json''
               (Some JEmptyArray) False)) \<and>
   serializable atom_api JEmptyArray \<and>
   JSON_parse atom_api [] = None \<and>
   fst (get_handler atom_api ''/srv/data''
     (snd (put_handler atom_api ''/srv/data'' Map.empty ''/data/summaries/b3a4c5dc.json''
               (Some JEmptyArray) False))
     ''/data/summaries/b3a4c5dc.json'' True) = Content ''[]''"
proof -
  have f: "fst (put_handler atom_api ''/srv/data'' Map.empty ''/data/summaries/b3a4c5dc.json''
               (Some JEmptyArray) False) = Written ''data/summaries/b3a4c5dc.json'' 2"
    by code_simp
  then have h1: "put_handler atom_api ''/srv/data'' Map.empty ''/data/summaries/b3a4c5dc.json''
       (Some JEmptyArray) False
     = (Written ''data/summaries/b3a4c5dc.json'' 2,
        snd (put_handler atom_api ''/srv/data'' Map.empty ''/data/summaries/b3a4c5dc.json''
               (Some JEmptyArray) False))"
    by (metis prod.collapse)
  have h2: "serializable atom_api JEmptyArray" by code_simp
  have h3: "JSON_parse atom_api [] = None" by code_simp
  have s: "JSON_stringify atom_api True JEmptyArray = ''[]''" by code_simp
  show ?thesis
    using h1 h2 h3 s write_then_read_roundtrip[OF h1 h2 h3, of True] by simp
qed

text \<open>
  C5 as it is stated does not hold. A write to \<open>/x.json/y.json\<close> makes \<open>x.json\<close> a
  directory under the storage root. The path \<open>x.json\<close> is sanitized, was never written
  and holds no file, yet it exists: the read passes the \<open>existsSync\<close> test, \<open>readFile\<close>
  fails on the directory, and the answer is \<open>read failed\<close>.
\<close>

theorem read_directory_is_ReadError:
  "fst (put_handler atom_api ''/srv/data'' Map.empty ''/x.json/y.json'' (Some JEmptyArray) True)
     = Written ''x.json/y.json'' 2 \<and>
   sanitize ''/x.json'' = Some ''x.json'' \<and>
   path_join [''/srv/data'', ''x.json''] = ''/srv/data/x.json'' \<and>
   snd (put_handler atom_api ''/srv/data'' Map.empty ''/x.json/y.json'' (Some JEmptyArray) True)
     ''/srv/data/x.json'' = Some Dir \<and>
   fst (get_handler atom_api ''/srv/data''
          (snd (put_handler atom_api ''/srv/data'' Map.empty ''/x.json/y.json'' (Some JEmptyArray) True))
          ''/x.json'' True) = ReadError"
  by code_simp

text \<open>
  C5, amended. For a sanitized path at which nothing exists in the store, neither a
  file nor a directory, the read answers \<open>not found\<close> and leaves the store as it was.
\<close>

theorem read_absent_is_NotFound:
  assumes "sanitize req_path = Some cleaned"
    and "\<not> existsSync fs (path_join [root, cleaned])"
  shows "get_handler api root fs req_path pretty = (NotFound, fs)"
  using assms sanitize_last(1)[OF assms(1)]
  by (simp add: get_handler_def Let_def)

theorem read_absent_is_NotFound_witness:
  "sanitize ''/nope.json'' = Some ''nope.json'' \<and>
   \<not> existsSync Map.empty (path_join [''/srv/data'', ''nope.json'']) \<and>
   get_handler atom_api ''/srv/data'' Map.empty ''/nope.json'' True = (NotFound, Map.empty)"
proof -
  have h1: "sanitize ''/nope.json'' = Some ''nope.json''" by code_simp
  have h2: "\<not> existsSync Map.empty (path_join [''/srv/data'', ''nope.json''])" by code_simp
  show ?thesis
    using h1 h2 read_absent_is_NotFound[OF h1 h2, of atom_api True] by simp
qed

text \<open>
  C6. For a sanitized path that exists in the store, the read answers with the
  rendering of the empty object when the content is empty and with the rendering of the
  parsed content otherwise; it answers \<open>read failed\<close> exactly when \<open>readFile\<close> fails or
  the content is not empty and does not parse.
\<close>

theorem read_existing_outcome:
  assumes "sanitize req_path = Some cleaned"
    and "existsSync fs (path_join [root, cleaned])"
  shows "get_handler api root fs req_path pretty =
           (case readFile fs (path_join [root, cleaned]) of
              Inl e \<Rightarrow> (ReadError, fs)
            | Inr txt \<Rightarrow>
                if txt = [] then (Content (JSON_stringify api pretty (empty_object api)), fs)
                else (case JSON_parse api txt of
                        None \<Rightarrow> (ReadError, fs)
                      | Some data \<Rightarrow> (Content (JSON_stringify api pretty data), fs))) \<and>
         (fst (get_handler api root fs req_path pretty) = ReadError \<longleftrightarrow>
            (\<exists>e. readFile fs (path_join [root, cleaned]) = Inl e) \<or>
            (\<exists>txt. readFile fs (path_join [root, cleaned]) = Inr txt \<and> txt \<noteq> [] \<and>
                   JSON_parse api txt = None))"
  using assms sanitize_last(1)[OF assms(1)]
  by (auto simp: get_handler_def Let_def split: sum.splits option.splits)

theorem read_existing_outcome_witness:
  "sanitize ''/linked_decks.json'' = Some ''linked_decks.json'' \<and>
   existsSync [''/srv/data/linked_decks.json'' \<mapsto> File []]
     (path_join [''/srv/data'', ''linked_decks.json'']) \<and>
   fst (get_handler atom_api ''/srv/data'' [''/srv/data/linked_decks.json'' \<mapsto> File []]
          ''/linked_decks.json'' False) = Content ''{}'' \<and>
   fst (get_handler atom_api ''/srv/data'' [''/srv/data/linked_decks.json'' \<mapsto> File []]
          ''/linked_decks.json'' False) \<noteq> ReadError"
proof -
  have h1: "sanitize ''/linked_decks.json'' = Some ''linked_decks.json''" by code_simp
  have h2: "existsSync [''/srv/data/linked_decks.json'' \<mapsto> File []]
     (path_join [''/srv/data'', ''linked_decks.json''])" by code_simp
  have r: "readFile [''/srv/data/linked_decks.json'' \<mapsto> File []]
     (path_join [''/srv/data'', ''linked_decks.json'']) = Inr []" by code_simp
  have s: "JSON_stringify atom_api False (empty_object atom_api) = ''{}''" by code_simp
  show ?thesis
    using h1 h2 r s read_existing_outcome[OF h1 h2, of atom_api False] by simp
qed

text \<open>
  The guard of the handler, taken alone: with \<open>req.body\<close> undefined it answers
  \<open>missing JSON body\<close> and leaves the store as it was.
\<close>

lemma put_handler_guard:
  assumes "sanitize req_path = Some cleaned"
  shows "put_handler api root fs req_path None pretty = (MissingBody, fs)"
  using assms sanitize_last(1)[OF assms]
  by (simp add: put_handler_def)

text \<open>
  C7 does not hold of the application. The body parser runs before the handler and
  never leaves \<open>req.body\<close> undefined, so no \<open>PUT\<close> request is answered with
  \<open>missing JSON body\<close>. A request with no body at all reaches the handler with the
  empty object: on an empty store it creates the directories, writes the file with the
  content \<open>{}\<close> and is answered with the path and two bytes.
\<close>

theorem put_route_never_MissingBody:
  "fst (put_route api STORAGE_KEY root fs header req_path raw_body pretty) \<noteq> MissingBody \<and>
   fst (put_route atom_api [] ''/srv/data'' Map.empty None ''/public/data/reveal_123.json''
          None True) = Written ''public/data/reveal_123.json'' 2 \<and>
   snd (put_route atom_api [] ''/srv/data'' Map.empty None ''/public/data/reveal_123.json''
          None True) ''/srv/data/public/data/reveal_123.json'' = Some (File ''{}'')"
proof -
  have 1: "fst (put_route api STORAGE_KEY root fs header req_path raw_body pretty) \<noteq> MissingBody"
  proof (cases "express_json api raw_body")
    case (Inl refused)
    then show ?thesis
      using express_json_refusal[OF Inl] by (auto simp: put_route_def)
  next
    case (Inr b)
    then have "b \<noteq> None" using express_json_defined[of api raw_body] by auto
    then have "fst (put_handler api root fs req_path b pretty) \<noteq> MissingBody"
      by (simp add: put_handler_MissingBody_iff)
    then show ?thesis using Inr by (simp add: put_route_def)
  qed
  have 2: "fst (put_route atom_api [] ''/srv/data'' Map.empty None ''/public/data/reveal_123.json''
          None True) = Written ''public/data/reveal_123.json'' 2" by code_simp
  have 3: "snd (put_route atom_api [] ''/srv/data'' Map.empty None ''/public/data/reveal_123.json''
          None True) ''/srv/data/public/data/reveal_123.json'' = Some (File ''{}'')" by code_simp
  show ?thesis using 1 2 3 by blast
qed

text \<open>
  C8. \<open>sanitize\<close> accepts the input \<open>.json\<close>, which has no base name, and returns it.
\<close>

theorem sanitize_bare_json: "sanitize ''.json'' = Some ''.json''"
  by code_simp

text \<open>
  C9. An input whose form after normalization and the stripping of the leading parent
  segments contains \<open>..\<close> anywhere is rejected. The test is on the substring: \<open>a..b.json\<close>
  is left as it is by the two steps, none of its segments is \<open>..\<close>, and it is rejected.
\<close>

theorem sanitize_rejects_dotdot_substring:
  "(includes_str (cleaned_of pth) ''..'' \<longrightarrow> sanitize pth = None) \<and>
   cleaned_of ''a..b.json'' = ''a..b.json'' \<and>
   ''..'' \<notin> set (split_where isPosixPathSeparator ''a..b.json'') \<and>
   ''..'' \<notin> set (split_where (\<lambda>c. c = slash \<or> c = backslash) ''a..b.json'') \<and>
   sanitize ''a..b.json'' = None"
proof -
  have 1: "includes_str (cleaned_of pth) ''..'' \<longrightarrow> sanitize pth = None"
    by (simp add: sanitize_def Let_def)
  have 2: "cleaned_of ''a..b.json'' = ''a..b.json''" by code_simp
  have 3: "''..'' \<notin> set (split_where isPosixPathSeparator ''a..b.json'')" by code_simp
  have 4: "''..'' \<notin> set (split_where (\<lambda>c. c = slash \<or> c = backslash) ''a..b.json'')"
    by code_simp
  have 5: "sanitize ''a..b.json'' = None" by code_simp
  show ?thesis using 1 2 3 4 5 by blast
qed

theorem sanitize_rejects_dotdot_substring_witness:
  "includes_str (cleaned_of ''/docs/v1..v2.json'') ''..'' \<and>
   sanitize ''/docs/v1..v2.json'' = None"
proof -
  have h: "includes_str (cleaned_of ''/docs/v1..v2.json'') ''..''" by code_simp
  show ?thesis
    using h sanitize_rejects_dotdot_substring[of "''/docs/v1..v2.json''"] by blast
qed

text \<open>
  C10. A read returns the store it was given, whatever it answers.
\<close>

theorem get_handler_leaves_store:
  "snd (get_handler api root fs req_path pretty) = fs"
  by (simp add: get_handler_def Let_def split: option.splits sum.splits)

end
